theory Spec2Isabelle
  imports Main "HOL-Library.Word"
begin

unbundle bit_operations_syntax

section \<open>The connection table entry (struct kk_conn)\<close>

text \<open>
  \<^verbatim>\<open>char\<close> is a byte, \<^verbatim>\<open>size_t\<close> is 64 bits wide (LP64) and \<^verbatim>\<open>int\<close> is 32 bits wide.
  \<^verbatim>\<open>buflen\<close> stays between 0 and \<^verbatim>\<open>sizeof conn->buf\<close>, so it is a natural number;
  the packet length computed in \<^verbatim>\<open>kk_input\<close> can wrap and is a machine word.
\<close>

type_synonym byte = "8 word"
type_synonym size_t = "64 word"

datatype kk_state = kk_closed | kk_connected | kk_banner | kk_kexinit

record kk_conn =
  fd :: int
  state :: kk_state
  buflen :: nat
  buf :: "byte list"

definition MAXCONCUR :: nat where
  "MAXCONCUR = 128"

text \<open>\<^verbatim>\<open>sizeof conn->buf\<close>\<close>

definition BUFSZ :: nat where
  "BUFSZ = 2048"

definition bytes_of :: "string \<Rightarrow> byte list" where
  "bytes_of s = map of_char s"

definition CR :: byte where "CR = 13"
definition LF :: byte where "LF = 10"

text \<open>\<^verbatim>\<open>static char banner[] = "SSH-2.0-kexkill\r\n"\<close>, without the terminating NUL.\<close>

definition banner :: "byte list" where
  "banner = bytes_of ''SSH-2.0-kexkill'' @ [CR, LF]"

text \<open>\<^verbatim>\<open>static char kexinit[]\<close>, without the terminating NUL.\<close>

definition kexinit :: "byte list" where
  "kexinit =
     [0x00, 0x00, 0x00, 0xcc] @
     [0x08] @
     [0x14] @
     bytes_of ''give me cookies!'' @
     [0x00, 0x00, 0x00, 0x36] @
     bytes_of ''diffie-hellman-group1-sha1,diffie-hellman-group14-sha1'' @
     [0x00, 0x00, 0x00, 0x0f] @
     bytes_of ''ssh-dss,ssh-rsa'' @
     [0x00, 0x00, 0x00, 0x13] @
     bytes_of ''3des-cbc,aes128-cbc'' @
     [0x00, 0x00, 0x00, 0x13] @
     bytes_of ''3des-cbc,aes128-cbc'' @
     [0x00, 0x00, 0x00, 0x09] @
     bytes_of ''hmac-sha1'' @
     [0x00, 0x00, 0x00, 0x09] @
     bytes_of ''hmac-sha1'' @
     [0x00, 0x00, 0x00, 0x04] @
     bytes_of ''none'' @
     [0x00, 0x00, 0x00, 0x04] @
     bytes_of ''none'' @
     [0x00, 0x00, 0x00, 0x00] @
     [0x00, 0x00, 0x00, 0x00] @
     [0x00] @
     [0x00, 0x00, 0x00, 0x00] @
     bytes_of ''padding!''"

section \<open>kk_close\<close>

text \<open>
  \<^verbatim>\<open>close(conn->fd); memset(conn, 0, sizeof *conn); conn->fd = -1; conn->state = kk_closed;\<close>
\<close>

definition kk_close :: "kk_conn \<Rightarrow> kk_conn" where
  "kk_close conn = \<lparr>fd = -1, state = kk_closed, buflen = 0, buf = replicate BUFSZ 0\<rparr>"

section \<open>kk_write\<close>

text \<open>
  The loop \<^verbatim>\<open>while (len > 0)\<close> of \<^verbatim>\<open>kk_write\<close>. The environment is the list of the values
  that the successive calls of \<^verbatim>\<open>write(2)\<close> return; a call never reports more than the
  \<^verbatim>\<open>len\<close> bytes it was given. The result is the return value together with the bytes
  that reached the transport; \<open>None\<close> when the results run out before the loop ends
  (the call has not returned).
\<close>

fun kk_write :: "int list \<Rightarrow> byte list \<Rightarrow> (int \<times> byte list) option" where
  "kk_write ws [] = Some (0, [])"
| "kk_write [] (x # xs) = None"
| "kk_write (wlen # ws) (x # xs) =
     (if wlen < 0 then Some (-1, [])
      else (case kk_write ws (drop (nat wlen) (x # xs)) of
              None \<Rightarrow> None
            | Some (r, sent) \<Rightarrow> Some (r, take (nat wlen) (x # xs) @ sent)))"

section \<open>kk_input\<close>

text \<open>What one call of \<^verbatim>\<open>read(2)\<close> returns: \<^verbatim>\<open>rlen < 0\<close>, or the \<^verbatim>\<open>rlen\<close> bytes it stored.\<close>

datatype read_result = ReadErr | ReadData "byte list"

text \<open>
  \<^verbatim>\<open>read(conn->fd, conn->buf, len)\<close> stores at most \<^verbatim>\<open>len\<close> bytes, starting at
  \<^verbatim>\<open>conn->buf\<close>, the first byte of the buffer.
\<close>

definition read_into :: "byte list \<Rightarrow> nat \<Rightarrow> byte list \<Rightarrow> byte list" where
  "read_into b len d = take len d @ drop (length (take len d)) b"

text \<open>\<^verbatim>\<open>memmove(conn->buf, eop, eom - eop)\<close> with \<^verbatim>\<open>eop\<close> and \<^verbatim>\<open>eom\<close> as offsets.\<close>

definition memmove_front :: "byte list \<Rightarrow> nat \<Rightarrow> nat \<Rightarrow> byte list" where
  "memmove_front b eop eom = take (eom - eop) (drop eop b) @ drop (eom - eop) b"

text \<open>\<^verbatim>\<open>for (eop = conn->buf; eop < eom; ++eop) if (*eop == '\r') break;\<close>\<close>

function find_cr :: "byte list \<Rightarrow> nat \<Rightarrow> nat \<Rightarrow> nat" where
  "find_cr b eom eop =
     (if eop < eom then (if b ! eop = CR then eop else find_cr b eom (eop + 1)) else eop)"
  by pat_completeness auto
termination
  by (relation "measure (\<lambda>(b, eom, eop). eom - eop)") auto

declare find_cr.simps [simp del]

text \<open>
  \<^verbatim>\<open>strncmp(s1, s2, n) == 0\<close> on NUL-terminated byte strings: at most \<open>n\<close> bytes are
  compared, and the comparison stops after a NUL.
\<close>

fun strncmp_eq :: "byte list \<Rightarrow> byte list \<Rightarrow> nat \<Rightarrow> bool" where
  "strncmp_eq s1 s2 0 = True"
| "strncmp_eq (x # s1) (y # s2) (Suc n) = (x = y \<and> (x = 0 \<or> strncmp_eq s1 s2 n))"
| "strncmp_eq s1 s2 (Suc n) = False"

text \<open>The string literal \<^verbatim>\<open>"SSH-2.0-"\<close> with its terminating NUL.\<close>

definition ssh20 :: "byte list" where
  "ssh20 = bytes_of ''SSH-2.0-'' @ [0]"

text \<open>
  The four bytes of the length field, each converted to \<^verbatim>\<open>uint8_t\<close>, promoted to
  \<^verbatim>\<open>int\<close>, shifted and or-ed, and the \<^verbatim>\<open>int\<close> converted to \<^verbatim>\<open>size_t\<close>
  (which extends the sign).
\<close>

definition pkt_len :: "byte list \<Rightarrow> size_t" where
  "pkt_len b =
     scast ((push_bit 24 (ucast (b ! 0)) OR push_bit 16 (ucast (b ! 1)) OR
             push_bit 8 (ucast (b ! 2)) OR ucast (b ! 3)) :: 32 word)"

text \<open>The arm \<^verbatim>\<open>case kk_connected\<close> of the switch; \<open>eom\<close> is \<^verbatim>\<open>conn->buflen\<close>.\<close>

definition kk_input_connected :: "kk_conn \<Rightarrow> int \<times> kk_conn" where
  "kk_input_connected conn =
     (let eom = buflen conn;
          eop = find_cr (buf conn) eom 0
      in if eop + 1 \<ge> eom then (0, conn)
         else
           let b = (buf conn)[eop := 0];
               eop1 = eop + 1;
               eop2 = eop1 + 1
           in if b ! eop1 \<noteq> LF \<or> eop2 > 255 \<or> \<not> strncmp_eq b ssh20 8
              then (-1, kk_close conn)
              else (0, conn\<lparr>buf := memmove_front b eop2 eom,
                            buflen := eom - eop2,
                            state := kk_banner\<rparr>))"

text \<open>The arm \<^verbatim>\<open>case kk_kexinit\<close> of the switch.\<close>

definition kk_input_kexinit :: "kk_conn \<Rightarrow> int \<times> kk_conn" where
  "kk_input_kexinit conn =
     (if buflen conn < 4 then (0, conn)
      else
        let len = pkt_len (buf conn)
        in if len + 4 > of_nat BUFSZ then (-1, kk_close conn)
           else
             let eop = unat (len + 4)
             in if eop > buflen conn then (0, conn)
                else if buf conn ! 5 = 1 then (0, kk_close conn)
                else (0, conn\<lparr>buf := memmove_front (buf conn) eop (buflen conn),
                              buflen := buflen conn - eop\<rparr>))"

text \<open>The switch on \<^verbatim>\<open>conn->state\<close>, lines 170 to 228.\<close>

definition kk_dispatch :: "kk_conn \<Rightarrow> int \<times> kk_conn" where
  "kk_dispatch conn =
     (case state conn of
        kk_connected \<Rightarrow> kk_input_connected conn
      | kk_kexinit \<Rightarrow> kk_input_kexinit conn
      | _ \<Rightarrow> (0, conn))"

text \<open>The receive, lines 160 to 169: \<open>None\<close> is \<^verbatim>\<open>goto fail\<close>.\<close>

definition kk_recv :: "kk_conn \<Rightarrow> read_result \<Rightarrow> kk_conn option" where
  "kk_recv conn rd =
     (if buflen conn = BUFSZ then None
      else
        let len = BUFSZ - buflen conn
        in case rd of
             ReadErr \<Rightarrow> None
           | ReadData d \<Rightarrow>
               Some (conn\<lparr>buf := read_into (buf conn) len d,
                          buflen := buflen conn + length (take len d)\<rparr>))"

definition kk_input :: "kk_conn \<Rightarrow> read_result \<Rightarrow> int \<times> kk_conn" where
  "kk_input conn rd =
     (case kk_recv conn rd of
        None \<Rightarrow> (-1, kk_close conn)
      | Some conn' \<Rightarrow> kk_dispatch conn')"

section \<open>kk_output\<close>

text \<open>
  The result is the return value, the connection and the bytes written to the transport;
  \<open>ws\<close> holds what the calls of \<^verbatim>\<open>write(2)\<close> made by this call return.
\<close>

definition kk_output :: "kk_conn \<Rightarrow> int list \<Rightarrow> (int \<times> kk_conn \<times> byte list) option" where
  "kk_output conn ws =
     (case state conn of
        kk_banner \<Rightarrow>
          (case kk_write ws banner of
             None \<Rightarrow> None
           | Some (r, sent) \<Rightarrow>
               if r \<noteq> 0 then Some (-1, kk_close conn, sent)
               else Some (0, conn\<lparr>state := kk_kexinit\<rparr>, sent))
      | kk_kexinit \<Rightarrow>
          (case kk_write ws kexinit of
             None \<Rightarrow> None
           | Some (r, sent) \<Rightarrow>
               if r \<noteq> 0 then Some (-1, kk_close conn, sent)
               else Some (0, conn, sent))
      | _ \<Rightarrow> Some (0, conn, []))"

section \<open>kk_connect\<close>

text \<open>
  The environment is what \<^verbatim>\<open>socket()\<close> followed by \<^verbatim>\<open>connect()\<close> gives: \<open>Some fd\<close>
  when both succeed, \<open>None\<close> when either fails (\<^verbatim>\<open>goto fail\<close>, the connection untouched).
\<close>

definition kk_connect :: "kk_conn \<Rightarrow> int option \<Rightarrow> int \<times> kk_conn" where
  "kk_connect conn res =
     (case res of
        None \<Rightarrow> (-1, conn)
      | Some s \<Rightarrow> (0, conn\<lparr>fd := s, state := kk_connected\<rparr>))"

section \<open>kexkill\<close>

record pollfd =
  pfd_fd :: int
  events :: "16 word"
  revents :: "16 word"

text \<open>The event bits of \<^verbatim>\<open><poll.h>\<close>.\<close>

definition POLLIN :: "16 word" where "POLLIN = 0x0001"
definition POLLOUT :: "16 word" where "POLLOUT = 0x0004"
definition POLLERR :: "16 word" where "POLLERR = 0x0008"
definition POLLHUP :: "16 word" where "POLLHUP = 0x0010"
definition POLLNVAL :: "16 word" where "POLLNVAL = 0x0020"

text \<open>
  What \<^verbatim>\<open>poll()\<close> returns: a negative value, with the flag telling whether \<^verbatim>\<open>errno\<close>
  is \<^verbatim>\<open>EINTR\<close>, or the events it found for each entry.
\<close>

datatype poll_result = PollErr bool | PollRet "nat \<Rightarrow> 16 word"

text \<open>
  Everything the outside world decides during one pass of the loop, by slot: the result
  of \<^verbatim>\<open>kk_connect\<close>, of \<^verbatim>\<open>poll\<close>, of the \<^verbatim>\<open>read\<close> in \<^verbatim>\<open>kk_input\<close> and of the
  \<^verbatim>\<open>write\<close>s in \<^verbatim>\<open>kk_output\<close>.
\<close>

record pass_env =
  connect_res :: "nat \<Rightarrow> int option"
  poll_res :: poll_result
  read_res :: "nat \<Rightarrow> read_result"
  write_res :: "nat \<Rightarrow> int list"

text \<open>The body of the first \<^verbatim>\<open>for\<close> loop, lines 273 to 283, for slot \<open>i\<close>.\<close>

definition topup_slot ::
  "pass_env \<Rightarrow> nat \<Rightarrow> kk_conn list \<times> pollfd list \<times> 32 word \<times> nat \<Rightarrow>
   kk_conn list \<times> pollfd list \<times> 32 word \<times> nat" where
  "topup_slot env i st =
     (case st of (conns, pfd, k, n) \<Rightarrow>
        let (conns1, k1) =
              (if state (conns ! i) = kk_closed
               then (case kk_connect (conns ! i) (connect_res env i) of
                       (r, c) \<Rightarrow> (conns[i := c], if r = 0 then k + 1 else k))
               else (conns, k));
            pfd1 = pfd[i := (pfd ! i)\<lparr>pfd_fd := fd (conns1 ! i)\<rparr>]
        in if state (conns1 ! i) = kk_closed
           then (conns1, pfd1[i := (pfd1 ! i)\<lparr>events := POLLNVAL\<rparr>], k1, n)
           else (conns1, pfd1[i := (pfd1 ! i)\<lparr>events := POLLIN OR POLLOUT OR POLLERR\<rparr>],
                 k1, i + 1))"

text \<open>\<^verbatim>\<open>memset(&pfd, 0, sizeof pfd); for (i = n = 0; i < MAXCONCUR; ++i) ...\<close>\<close>

definition topup ::
  "pass_env \<Rightarrow> kk_conn list \<Rightarrow> 32 word \<Rightarrow> kk_conn list \<times> pollfd list \<times> 32 word \<times> nat" where
  "topup env conns k =
     fold (topup_slot env) [0..<MAXCONCUR]
       (conns, replicate MAXCONCUR \<lparr>pfd_fd = 0, events = 0, revents = 0\<rparr>, k, 0)"

text \<open>
  \<^verbatim>\<open>poll(pfd, MAXCONCUR, -1)\<close> stores the events found in \<^verbatim>\<open>revents\<close>; an entry with a
  negative \<^verbatim>\<open>fd\<close> is ignored and gets no event. The return value is the number of
  entries with an event.
\<close>

definition poll_store :: "(nat \<Rightarrow> 16 word) \<Rightarrow> pollfd list \<Rightarrow> pollfd list" where
  "poll_store rv pfd =
     map (\<lambda>i. (pfd ! i)\<lparr>revents := (if pfd_fd (pfd ! i) < 0 then 0 else rv i)\<rparr>)
       [0..<length pfd]"

definition poll_count :: "pollfd list \<Rightarrow> int" where
  "poll_count pfd = int (length (filter (\<lambda>p. revents p \<noteq> 0) pfd))"

text \<open>
  Lines 299 to 308 for one connection: the events found, the connection, and what its
  \<^verbatim>\<open>read\<close> and \<^verbatim>\<open>write\<close> calls return. The result is the connection and the bytes
  written to its transport, \<open>None\<close> when \<^verbatim>\<open>kk_write\<close> has not returned.
\<close>

definition kk_serve ::
  "16 word \<Rightarrow> read_result \<Rightarrow> int list \<Rightarrow> kk_conn \<Rightarrow> (kk_conn \<times> byte list) option" where
  "kk_serve ev rd ws conn =
     (if ev AND (POLLERR OR POLLHUP) \<noteq> 0 then Some (kk_close conn, [])
      else
        let conn1 = (if ev AND POLLIN \<noteq> 0 then snd (kk_input conn rd) else conn)
        in if ev AND POLLOUT \<noteq> 0
           then (case kk_output conn1 ws of
                   None \<Rightarrow> None
                 | Some (r, conn2, sent) \<Rightarrow> Some (conn2, sent))
           else Some (conn1, []))"

text \<open>The body of the second \<^verbatim>\<open>for\<close> loop, lines 297 to 308, for slot \<open>i\<close>.\<close>

definition dispatch_slot ::
  "pass_env \<Rightarrow> pollfd list \<Rightarrow> nat \<Rightarrow> kk_conn list option \<Rightarrow> kk_conn list option" where
  "dispatch_slot env pfd i st =
     (case st of
        None \<Rightarrow> None
      | Some conns \<Rightarrow>
          if pfd_fd (pfd ! i) = 0 then Some conns
          else (case kk_serve (revents (pfd ! i)) (read_res env i) (write_res env i) (conns ! i) of
                  None \<Rightarrow> None
                | Some (c, sent) \<Rightarrow> Some (conns[i := c])))"

definition dispatch :: "pass_env \<Rightarrow> pollfd list \<Rightarrow> kk_conn list \<Rightarrow> kk_conn list option" where
  "dispatch env pfd conns = fold (dispatch_slot env pfd) [0..<MAXCONCUR] (Some conns)"

text \<open>
  One pass of \<^verbatim>\<open>for (;;)\<close>, on the table and the counter \<^verbatim>\<open>k\<close> (an \<^verbatim>\<open>int\<close>, 32 bits
  wide): \<open>Break\<close> is \<^verbatim>\<open>break\<close> (the loop is left and \<^verbatim>\<open>k\<close> returned), \<open>Exit\<close> is
  \<^verbatim>\<open>err(1, "poll()")\<close>, \<open>Stuck\<close> a \<^verbatim>\<open>kk_write\<close> that has not returned, and
  \<open>Continue\<close> the start of the next pass.
\<close>

datatype pass_result =
  Break "kk_conn list" "32 word"
| Exit int
| Stuck
| Continue "kk_conn list" "32 word"

definition kk_pass :: "pass_env \<Rightarrow> kk_conn list \<Rightarrow> 32 word \<Rightarrow> pass_result" where
  "kk_pass env conns k =
     (case topup env conns k of (conns1, pfd, k1, n) \<Rightarrow>
        if n = 0 then Break conns1 k1
        else (case poll_res env of
                PollErr eintr \<Rightarrow> if \<not> eintr then Exit 1 else Continue conns1 k1
              | PollRet rv \<Rightarrow>
                  let pfd1 = poll_store rv pfd
                  in if poll_count pfd1 \<le> 0 then Continue conns1 k1
                     else (case dispatch env pfd1 conns1 of
                             None \<Rightarrow> Stuck
                           | Some conns2 \<Rightarrow> Continue conns2 k1)))"

text \<open>
  The loop, one element of the list for each pass. \<open>None\<close>: the loop is still running
  when the list ends, or is stuck in a write.
\<close>

datatype outcome = Returned "32 word" "kk_conn list" | Exited int

fun kexkill_loop :: "pass_env list \<Rightarrow> kk_conn list \<Rightarrow> 32 word \<Rightarrow> outcome option" where
  "kexkill_loop [] conns k = None"
| "kexkill_loop (env # envs) conns k =
     (case kk_pass env conns k of
        Break conns1 k1 \<Rightarrow> Some (Returned k1 conns1)
      | Exit s \<Rightarrow> Some (Exited s)
      | Stuck \<Rightarrow> None
      | Continue conns1 k1 \<Rightarrow> kexkill_loop envs conns1 k1)"

text \<open>\<^verbatim>\<open>k = 0; for (;;) { ... } return (k);\<close>\<close>

definition kexkill :: "pass_env list \<Rightarrow> kk_conn list \<Rightarrow> outcome option" where
  "kexkill envs conns = kexkill_loop envs conns 0"

text \<open>
  The connection table and the counter after all the passes of the list, when the loop
  is still running then.
\<close>

fun kexkill_passes ::
  "pass_env list \<Rightarrow> kk_conn list \<Rightarrow> 32 word \<Rightarrow> (kk_conn list \<times> 32 word) option" where
  "kexkill_passes [] conns k = Some (conns, k)"
| "kexkill_passes (env # envs) conns k =
     (case kk_pass env conns k of
        Continue conns1 k1 \<Rightarrow> kexkill_passes envs conns1 k1
      | _ \<Rightarrow> None)"

text \<open>
  The passes seen from one slot that stays in use: for each pass in which \<^verbatim>\<open>poll\<close> finds
  events for the slot, the events, and what \<^verbatim>\<open>read\<close> and \<^verbatim>\<open>write\<close> return. The result
  is the connection and, pass by pass, the bytes written to its transport.
\<close>

fun kk_serve_all ::
  "(16 word \<times> read_result \<times> int list) list \<Rightarrow> kk_conn \<Rightarrow> (kk_conn \<times> byte list list) option"
  where
  "kk_serve_all [] conn = Some (conn, [])"
| "kk_serve_all ((ev, rd, ws) # es) conn =
     (case kk_serve ev rd ws conn of
        None \<Rightarrow> None
      | Some (conn1, sent) \<Rightarrow>
          (case kk_serve_all es conn1 of
             None \<Rightarrow> None
           | Some (conn2, sents) \<Rightarrow> Some (conn2, sent # sents)))"

section \<open>main\<close>

text \<open>
  \<^verbatim>\<open>memset(&conns, 0, sizeof conns); for (i = 0; i < MAXCONCUR; ++i) conns[i].fd = -1;\<close>
\<close>

definition conns_init :: "kk_conn list" where
  "conns_init =
     replicate MAXCONCUR \<lparr>fd = -1, state = kk_closed, buflen = 0, buf = replicate BUFSZ 0\<rparr>"

text \<open>
  \<^verbatim>\<open>for (res = reslist; res; res = res->ai_next) if (kexkill(...) > 0) break; ... exit(0);\<close>
  with, for each resolved address, the passes of the run against it. The result is the
  exit status of the process.
\<close>

fun main_loop :: "pass_env list list \<Rightarrow> kk_conn list \<Rightarrow> int option" where
  "main_loop [] conns = Some 0"
| "main_loop (envs # rest) conns =
     (case kexkill envs conns of
        None \<Rightarrow> None
      | Some (Exited s) \<Rightarrow> Some s
      | Some (Returned k conns1) \<Rightarrow> if sint k > 0 then Some 0 else main_loop rest conns1)"

section \<open>Counting the connections opened\<close>

text \<open>
  What the first loop of a pass leaves in slot \<open>i\<close>: a closed slot is handed to
  \<^verbatim>\<open>kk_connect\<close>, any other slot is left alone.
\<close>

definition topup_conn :: "pass_env \<Rightarrow> nat \<Rightarrow> kk_conn \<Rightarrow> kk_conn" where
  "topup_conn env i conn =
     (if state conn = kk_closed then snd (kk_connect conn (connect_res env i)) else conn)"

text \<open>Slot \<open>i\<close> is opened in the pass: it is closed and \<^verbatim>\<open>kk_connect\<close> succeeds.\<close>

definition opens :: "pass_env \<Rightarrow> kk_conn list \<Rightarrow> nat \<Rightarrow> bool" where
  "opens env conns i = (state (conns ! i) = kk_closed \<and> connect_res env i \<noteq> None)"

definition opened_in_pass :: "pass_env \<Rightarrow> kk_conn list \<Rightarrow> nat" where
  "opened_in_pass env conns = length (filter (opens env conns) [0..<MAXCONCUR])"

text \<open>
  The number of connections opened in the passes of a run, up to the pass that leaves the
  loop; the counter is carried along to replay the passes.
\<close>

fun opened_total :: "pass_env list \<Rightarrow> kk_conn list \<Rightarrow> 32 word \<Rightarrow> nat" where
  "opened_total [] conns k = 0"
| "opened_total (env # envs) conns k =
     opened_in_pass env conns +
     (case kk_pass env conns k of
        Continue conns1 k1 \<Rightarrow> opened_total envs conns1 k1
      | _ \<Rightarrow> 0)"

section \<open>Example connections\<close>

text \<open>The banner of an OpenSSH server, and the two reads it is split into.\<close>

definition peer_banner :: "byte list" where
  "peer_banner = bytes_of ''SSH-2.0-OpenSSH_9.0'' @ [CR, LF]"

definition peer_banner_1 :: "byte list" where
  "peer_banner_1 = bytes_of ''SSH-2.0-Open''"

definition peer_banner_2 :: "byte list" where
  "peer_banner_2 = bytes_of ''SSH_9.0'' @ [CR, LF]"

text \<open>A slot of the table of \<^verbatim>\<open>main\<close> after \<^verbatim>\<open>kk_connect\<close> has stored descriptor 3.\<close>

definition fresh_conn :: kk_conn where
  "fresh_conn = \<lparr>fd = 3, state = kk_connected, buflen = 0, buf = replicate BUFSZ 0\<rparr>"

text \<open>The same slot after the first read of the split banner.\<close>

definition half_conn :: kk_conn where
  "half_conn =
     \<lparr>fd = 3, state = kk_connected, buflen = 12,
      buf = bytes_of ''SSH-2.0-Open'' @ replicate 2036 0\<rparr>"

text \<open>
  The slot after the whole banner has come in one read (the carriage return replaced by
  NUL, nothing left to consume), and after the banner has been answered.
\<close>

definition banner_conn :: kk_conn where
  "banner_conn =
     \<lparr>fd = 3, state = kk_banner, buflen = 0,
      buf = bytes_of ''SSH-2.0-OpenSSH_9.0'' @ [0, LF] @ replicate 2027 0\<rparr>"

definition kex_conn :: kk_conn where
  "kex_conn = banner_conn\<lparr>state := kk_kexinit\<rparr>"

text \<open>
  A frame whose length field holds \<^verbatim>\<open>ff ff ff ff\<close>, and the connection \<open>kex_conn\<close>
  after the read that stores it.
\<close>

definition wrap_frame :: "byte list" where
  "wrap_frame = [0xff, 0xff, 0xff, 0xff, 0x00, 0x00]"

definition wrap_conn :: kk_conn where
  "wrap_conn = kex_conn\<lparr>buf := read_into (buf kex_conn) BUFSZ wrap_frame, buflen := 6\<rparr>"

text \<open>
  Frames for a connection in the KexInit stage: a packet of declared length 2 and type
  20 followed by the first bytes of the next packet; a packet of declared length 1, whose
  five bytes end before offset 5, followed by one more byte; a disconnect packet; and the
  six bytes \<^verbatim>\<open>00 00 00 02 01 00\<close> with the two reads they come in.
\<close>

definition kexinit_frame :: "byte list" where
  "kexinit_frame = [0x00, 0x00, 0x00, 0x02, 0x00, 0x14] @ [0x00, 0x00, 0x00, 0x09]"

definition short_frame :: "byte list" where
  "short_frame = [0x00, 0x00, 0x00, 0x01, 0x00] @ [0x01]"

definition disconnect_frame :: "byte list" where
  "disconnect_frame = [0x00, 0x00, 0x00, 0x02, 0x00, 0x01]"

definition six_bytes :: "byte list" where
  "six_bytes = [0x00, 0x00, 0x00, 0x02, 0x01, 0x00]"

definition six_bytes_1 :: "byte list" where
  "six_bytes_1 = [0x00, 0x00, 0x00, 0x02]"

definition six_bytes_2 :: "byte list" where
  "six_bytes_2 = [0x01, 0x00]"

text \<open>The connection \<open>kex_conn\<close> after the read of \<open>six_bytes_1\<close>.\<close>

definition len_conn :: kk_conn where
  "len_conn = kex_conn\<lparr>buf := read_into (buf kex_conn) BUFSZ six_bytes_1, buflen := 4\<rparr>"

text \<open>
  A banner line of 254 bytes before its terminator: the prefix, 246 letters \<^verbatim>\<open>a\<close>,
  and the terminator.
\<close>

definition long_banner :: "byte list" where
  "long_banner = bytes_of ''SSH-2.0-'' @ replicate 246 0x61 @ [CR, LF]"

text \<open>
  Two runs of passes for the slot \<open>fresh_conn\<close>, every write storing all it is given.
  In the first the banner comes in two reads, and both passes find the slot readable and
  writable. In the second the banner comes in one read, and two more passes find the slot
  writable.
\<close>

definition split_events :: "(16 word \<times> read_result \<times> int list) list" where
  "split_events =
     [(POLLIN OR POLLOUT, ReadData peer_banner_1, [17]),
      (POLLIN OR POLLOUT, ReadData peer_banner_2, [17])]"

definition whole_events :: "(16 word \<times> read_result \<times> int list) list" where
  "whole_events =
     [(POLLIN OR POLLOUT, ReadData peer_banner, [17]),
      (POLLOUT, ReadData [], [208]),
      (POLLOUT, ReadData [], [208])]"

text \<open>
  A pass against an endpoint that refuses every connection attempt; nothing else of the
  environment is consulted in such a pass.
\<close>

definition refuse_env :: pass_env where
  "refuse_env =
     \<lparr>connect_res = (\<lambda>i. None), poll_res = PollErr False,
      read_res = (\<lambda>i. ReadErr), write_res = (\<lambda>i. [])\<rparr>"

text \<open>
  A pass in which slot 0 is opened on descriptor 3 and every other attempt is refused,
  and \<^verbatim>\<open>poll\<close> then reports a hang-up; and the same pass with \<^verbatim>\<open>poll\<close> failing with
  an error other than \<^verbatim>\<open>EINTR\<close>.
\<close>

definition hangup_env :: pass_env where
  "hangup_env =
     \<lparr>connect_res = (\<lambda>i. if i = 0 then Some 3 else None), poll_res = PollRet (\<lambda>i. POLLHUP),
      read_res = (\<lambda>i. ReadErr), write_res = (\<lambda>i. [])\<rparr>"

definition abort_env :: pass_env where
  "abort_env =
     \<lparr>connect_res = (\<lambda>i. if i = 0 then Some 3 else None), poll_res = PollErr False,
      read_res = (\<lambda>i. ReadErr), write_res = (\<lambda>i. [])\<rparr>"

text \<open>
  The table of \<^verbatim>\<open>main\<close> when the first call of \<^verbatim>\<open>socket()\<close> has returned descriptor 0
  (the standard input of the process was closed) and no other slot could be opened.
\<close>

definition fd0_conn :: kk_conn where
  "fd0_conn = \<lparr>fd = 0, state = kk_connected, buflen = 0, buf = replicate BUFSZ 0\<rparr>"

definition fd0_conns :: "kk_conn list" where
  "fd0_conns = conns_init[0 := fd0_conn]"

text \<open>
  A pass in which no further connection can be opened, \<^verbatim>\<open>poll\<close> finds every descriptor
  readable and writable, every read delivers the banner of the peer and every write
  stores all it is given.
\<close>

definition ready_env :: pass_env where
  "ready_env =
     \<lparr>connect_res = (\<lambda>i. None), poll_res = PollRet (\<lambda>i. POLLIN OR POLLOUT),
      read_res = (\<lambda>i. ReadData peer_banner), write_res = (\<lambda>i. [17])\<rparr>"

text \<open>A packet of declared length 0: four bytes, no padding length and no type.\<close>

definition empty_frame :: "byte list" where
  "empty_frame = [0x00, 0x00, 0x00, 0x00]"

section \<open>The declared packet length\<close>

text \<open>
  The number that the first four bytes of the buffer denote as a 32-bit big-endian
  unsigned integer: the packet length that the peer declares.
\<close>

definition be32 :: "byte list \<Rightarrow> nat" where
  "be32 b = unat (b ! 0) * 2 ^ 24 + unat (b ! 1) * 2 ^ 16 + unat (b ! 2) * 2 ^ 8 + unat (b ! 3)"

section \<open>Properties of the model\<close>

subsection \<open>The helpers of kk_input\<close>

lemma strncmp_eq_lit:
  "0 \<notin> set lit \<Longrightarrow> strncmp_eq s (lit @ z) (length lit) = (take (length lit) s = lit)"
proof (induction lit arbitrary: s)
  case Nil
  then show ?case by simp
next
  case (Cons y lit)
  then show ?case by (cases s) auto
qed

lemma strncmp_ssh20: "strncmp_eq s ssh20 8 = (take 8 s = bytes_of ''SSH-2.0-'')"
proof -
  have "length (bytes_of ''SSH-2.0-'') = 8" by (simp add: bytes_of_def)
  moreover have "0 \<notin> set (bytes_of ''SSH-2.0-'')" by (simp add: bytes_of_def)
  ultimately show ?thesis
    using strncmp_eq_lit [of "bytes_of ''SSH-2.0-''" s "[0]"] by (simp add: ssh20_def)
qed

lemmas kk_eval =
  kk_input_def kk_recv_def BUFSZ_def read_into_def kk_dispatch_def kk_input_connected_def
  kk_input_kexinit_def memmove_front_def strncmp_ssh20 bytes_of_def CR_def LF_def
  find_cr.simps kk_close_def Let_def pkt_len_def

subsection \<open>The example connections are states of a run\<close>

lemma fresh_conn_reached:
  "kk_connect (conns_init ! 0) (Some 3) = (0, fresh_conn)"
  by (simp add: kk_connect_def conns_init_def MAXCONCUR_def fresh_conn_def)

lemma half_conn_reached:
  "kk_input fresh_conn (ReadData peer_banner_1) = (0, half_conn)"
  by (simp add: fresh_conn_def half_conn_def peer_banner_1_def kk_eval)

lemma banner_conn_reached:
  "kk_input fresh_conn (ReadData peer_banner) = (0, banner_conn)"
  by (simp add: fresh_conn_def banner_conn_def peer_banner_def kk_eval)

subsection \<open>Fragmented delivery of the banner\<close>

text \<open>
  C1. The peer banner \<^verbatim>\<open>SSH-2.0-OpenSSH_9.0\r\n\<close> delivered in one read is accepted:
  the connection reaches the Banner stage with nothing left in the buffer. Delivered as
  \<^verbatim>\<open>SSH-2.0-Open\<close> and then \<^verbatim>\<open>SSH_9.0\r\n\<close>, the second read is stored at the start of
  the buffer, over the first twelve bytes, while the length grows to 21: the buffer then
  begins with \<^verbatim>\<open>SSH_9.0\r\npen\<close>, the banner is rejected and the connection closed with
  return value -1. The two deliveries of the same bytes end in different states.
\<close>

theorem fragmented_banner_diverges:
  "kk_input fresh_conn (ReadData (peer_banner_1 @ peer_banner_2)) = (0, banner_conn) \<and>
   kk_input (snd (kk_input fresh_conn (ReadData peer_banner_1))) (ReadData peer_banner_2) =
     (-1, kk_close half_conn) \<and>
   kk_recv half_conn (ReadData peer_banner_2) =
     Some (half_conn\<lparr>buf := peer_banner_2 @ bytes_of ''pen'' @ replicate 2036 0,
                      buflen := 21\<rparr>)"
proof -
  have whole: "kk_input fresh_conn (ReadData (peer_banner_1 @ peer_banner_2)) = (0, banner_conn)"
    by (simp add: fresh_conn_def banner_conn_def peer_banner_1_def peer_banner_2_def kk_eval)
  have second: "kk_input half_conn (ReadData peer_banner_2) = (-1, kk_close half_conn)"
    by (simp add: half_conn_def peer_banner_2_def kk_eval)
  have stored: "kk_recv half_conn (ReadData peer_banner_2) =
     Some (half_conn\<lparr>buf := peer_banner_2 @ bytes_of ''pen'' @ replicate 2036 0,
                      buflen := 21\<rparr>)"
    by (simp add: half_conn_def peer_banner_2_def kk_eval)
  from whole second stored show ?thesis
    by (simp add: half_conn_reached)
qed

subsection \<open>A read of zero bytes\<close>

lemma kk_recv_nothing:
  "buflen conn < BUFSZ \<Longrightarrow> kk_recv conn (ReadData []) = Some conn"
  by (simp add: kk_recv_def read_into_def)

text \<open>
  C3, as the code has it. A read that returns zero bytes and no error is not a failure
  of its own: nothing is stored, and the switch runs on the bytes already buffered. With
  fewer than two bytes buffered in the Connected stage, with fewer than four in the KexInit
  stage, and in the Banner stage, \<^verbatim>\<open>kk_input\<close> returns 0 and leaves the connection
  open and unchanged.
\<close>

theorem zero_read_leaves_open:
  assumes "buflen conn < BUFSZ"
    and "state conn = kk_connected \<and> buflen conn < 2 \<or> state conn = kk_banner \<or>
         state conn = kk_kexinit \<and> buflen conn < 4"
  shows "kk_input conn (ReadData []) = (0, conn)"
proof -
  have recv: "kk_recv conn (ReadData []) = Some conn"
    using assms(1) by (rule kk_recv_nothing)
  have "kk_dispatch conn = (0, conn)"
  proof -
    consider "state conn = kk_connected" "buflen conn < 2" | "state conn = kk_banner"
      | "state conn = kk_kexinit" "buflen conn < 4"
      using assms(2) by blast
    then show ?thesis
    proof cases
      case 1
      then show ?thesis by (simp add: kk_dispatch_def kk_input_connected_def Let_def)
    next
      case 2
      then show ?thesis by (simp add: kk_dispatch_def)
    next
      case 3
      then show ?thesis by (simp add: kk_dispatch_def kk_input_kexinit_def)
    qed
  qed
  with recv show ?thesis by (simp add: kk_input_def)
qed

theorem zero_read_leaves_open_witness:
  "kk_input fresh_conn (ReadData []) = (0, fresh_conn) \<and> state fresh_conn = kk_connected \<and>
   buflen fresh_conn = 0"
  using zero_read_leaves_open [of fresh_conn]
  by (simp add: fresh_conn_def BUFSZ_def)

text \<open>
  The claim as the specification states it fails on a connection that has just been
  opened: the read of zero bytes returns 0 and the connection stays in the Connected
  stage with its descriptor.
\<close>

theorem zero_read_not_closed:
  "fst (kk_input fresh_conn (ReadData [])) = 0 \<and>
   state (snd (kk_input fresh_conn (ReadData []))) = kk_connected \<and>
   fd (snd (kk_input fresh_conn (ReadData []))) = 3"
  by (simp add: fresh_conn_def kk_eval)

subsection \<open>The length field\<close>

lemma byte_bound: "unat (x :: byte) < 256"
  using unsigned_less [of x, where 'a = nat] by simp

lemma length_word_sum:
  "(push_bit 24 (ucast (a::byte)) OR push_bit 16 (ucast (b::byte)) OR
    push_bit 8 (ucast (c::byte)) OR ucast (d::byte) :: 32 word)
   = push_bit 24 (ucast a) + (push_bit 16 (ucast b) + (push_bit 8 (ucast c) + ucast d))"
proof -
  have 1: "push_bit 8 (ucast c) + (ucast d :: 32 word) = push_bit 8 (ucast c) OR ucast d"
    by (rule disjunctive_add_eq_or, rule bit_eqI)
      (auto simp add: bit_simps dest: bit_imp_le_length)
  have 2: "push_bit 16 (ucast b) + (push_bit 8 (ucast c) OR ucast d :: 32 word)
      = push_bit 16 (ucast b) OR (push_bit 8 (ucast c) OR ucast d)"
    by (rule disjunctive_add_eq_or, rule bit_eqI)
      (auto simp add: bit_simps dest: bit_imp_le_length)
  have 3: "push_bit 24 (ucast a) +
        (push_bit 16 (ucast b) OR (push_bit 8 (ucast c) OR ucast d) :: 32 word)
      = push_bit 24 (ucast a) OR (push_bit 16 (ucast b) OR (push_bit 8 (ucast c) OR ucast d))"
    by (rule disjunctive_add_eq_or, rule bit_eqI)
      (auto simp add: bit_simps dest: bit_imp_le_length)
  show ?thesis by (simp only: 1 2 3)
qed

lemma length_word_of_nat:
  "(push_bit 24 (ucast (a::byte)) + (push_bit 16 (ucast (b::byte)) +
     (push_bit 8 (ucast (c::byte)) + ucast (d::byte))) :: 32 word)
   = of_nat (unat a * 2 ^ 24 + unat b * 2 ^ 16 + unat c * 2 ^ 8 + unat d)"
  by (simp add: push_bit_eq_mult ac_simps)

lemma be32_bound: "be32 b < 2 ^ 32"
  using byte_bound [of "b ! 0"] byte_bound [of "b ! 1"] byte_bound [of "b ! 2"]
    byte_bound [of "b ! 3"]
  by (simp add: be32_def)

text \<open>The 32-bit value that the code assembles is the declared length.\<close>

lemma pkt_len_be32:
  "pkt_len b = scast (of_nat (be32 b) :: 32 word)"
  unfolding pkt_len_def length_word_sum length_word_of_nat be32_def ..

lemma uint_of_be32: "uint (of_nat (be32 b) :: 32 word) = int (be32 b)"
proof -
  have "unat (of_nat (be32 b) :: 32 word) = be32 b"
    using be32_bound [of b] by (simp add: unat_of_nat take_bit_nat_eq_self)
  then show ?thesis by (simp add: uint_nat)
qed

lemma sint32_shift: "sint (w :: 32 word) = (uint w + 2 ^ 31) mod 2 ^ 32 - 2 ^ 31"
  by (simp add: sint_uint signed_take_bit_eq_take_bit_shift take_bit_eq_mod)

lemma uint32_bound: "uint (w :: 32 word) < 4294967296"
  using uint_bounded [of w] by simp

lemma sint32_small: "uint (w :: 32 word) < 2147483648 \<Longrightarrow> sint w = uint w"
  unfolding sint32_shift by simp

lemma sint32_large:
  assumes "2147483648 \<le> uint (w :: 32 word)"
  shows "sint w = uint w - 4294967296"
proof -
  have "uint w < 4294967296" by (rule uint32_bound)
  with assms have "(uint w + 2147483648) mod 4294967296 = uint w + 2147483648 - 4294967296"
    by (simp add: mod_pos_geq)
  then show ?thesis unfolding sint32_shift by simp
qed

lemma neg_wrap64:
  assumes "y < 0" "- (2 ^ 64) \<le> (y::int)"
  shows "y mod 2 ^ 64 = y + 2 ^ 64"
proof -
  have "(y + 2 ^ 64) mod 2 ^ 64 = y mod 2 ^ 64" by (rule mod_add_self2)
  moreover have "(y + 2 ^ 64) mod 2 ^ 64 = y + 2 ^ 64"
    using assms by (intro mod_pos_pos_trivial) simp_all
  ultimately show ?thesis by simp
qed

lemma uint_len4:
  "uint (scast (w :: 32 word) + 4 :: size_t) = (sint w mod 2 ^ 64 + 4) mod 2 ^ 64"
proof -
  have "uint (scast w + 4 :: size_t) = (uint (scast w :: size_t) + 4) mod 2 ^ 64"
    by (simp add: uint_word_ariths)
  also have "uint (scast w :: size_t) = sint w mod 2 ^ 64"
    by (simp only: scast_eq uint_word_of_int) simp
  finally show ?thesis .
qed

lemma len4_fits:
  assumes "uint (w :: 32 word) + 4 \<le> 2048"
  shows "uint (scast w + 4 :: size_t) = uint w + 4"
proof -
  have s: "sint w = uint w" using assms by (intro sint32_small) simp
  have "0 \<le> uint w" by simp
  with assms show ?thesis unfolding uint_len4 s by simp
qed

lemma len4_big:
  assumes "2048 < uint (w :: 32 word) + 4" "uint w + 4 < 4294967296"
  shows "2048 < uint (scast w + 4 :: size_t)"
proof (cases "uint w < 2147483648")
  case True
  then have s: "sint w = uint w" by (rule sint32_small)
  have "0 \<le> uint w" by simp
  with assms True show ?thesis unfolding uint_len4 s by simp
next
  case False
  then have s: "sint w = uint w - 4294967296" by (intro sint32_large) simp
  have m: "(uint w - 4294967296) mod 2 ^ 64 = uint w - 4294967296 + 2 ^ 64"
    using False assms(2) by (rule_tac neg_wrap64) simp_all
  show ?thesis unfolding uint_len4 s m using False assms(2) by simp
qed

lemma len4_wraps:
  assumes "4294967296 \<le> uint (w :: 32 word) + 4"
  shows "uint (scast w + 4 :: size_t) = uint w + 4 - 4294967296"
proof -
  have b: "uint w < 4294967296" by (rule uint32_bound)
  from assms have s: "sint w = uint w - 4294967296" by (intro sint32_large) simp
  have m: "(uint w - 4294967296) mod 2 ^ 64 = uint w - 4294967296 + 2 ^ 64"
    using assms b by (rule_tac neg_wrap64) simp_all
  have "(uint w + 4 - 4294967296 + 2 ^ 64) mod 2 ^ 64 = (uint w + 4 - 4294967296) mod 2 ^ 64"
    by (rule mod_add_self2)
  moreover have "uint w - 4294967296 + 2 ^ 64 + 4 = uint w + 4 - 4294967296 + 2 ^ 64"
    by simp
  ultimately show ?thesis unfolding uint_len4 s m using assms b by simp
qed

text \<open>
  The three ranges of the declared length \<open>L\<close>: \<open>L + 4\<close> within the buffer, beyond
  the buffer but below \<open>2 ^ 32\<close>, and from \<open>2 ^ 32\<close> on, where the sum computed by
  the code wraps around to \<open>L + 4 - 2 ^ 32\<close>.
\<close>

lemma pkt_len_fits:
  assumes "be32 b + 4 \<le> BUFSZ"
  shows "\<not> pkt_len b + 4 > of_nat BUFSZ" and "unat (pkt_len b + 4) = be32 b + 4"
proof -
  have u: "uint (pkt_len b + 4) = int (be32 b) + 4"
    unfolding pkt_len_be32 using assms by (subst len4_fits) (simp_all add: uint_of_be32 BUFSZ_def)
  show "\<not> pkt_len b + 4 > of_nat BUFSZ"
    using assms by (simp add: word_less_alt u BUFSZ_def)
  have "nat (uint (pkt_len b + 4)) = be32 b + 4"
    by (simp add: u del: nat_uint_eq)
  then show "unat (pkt_len b + 4) = be32 b + 4" by simp
qed

lemma pkt_len_big:
  assumes "BUFSZ < be32 b + 4" "be32 b + 4 < 2 ^ 32"
  shows "pkt_len b + 4 > of_nat BUFSZ"
proof -
  have "2048 < uint (pkt_len b + 4)"
    unfolding pkt_len_be32 using assms by (intro len4_big) (simp_all add: uint_of_be32 BUFSZ_def)
  then show ?thesis by (simp add: word_less_alt BUFSZ_def)
qed

lemma pkt_len_wraps:
  assumes "2 ^ 32 \<le> be32 b + 4"
  shows "\<not> pkt_len b + 4 > of_nat BUFSZ" and "unat (pkt_len b + 4) = be32 b + 4 - 2 ^ 32"
proof -
  have u: "uint (pkt_len b + 4) = int (be32 b) + 4 - 4294967296"
    unfolding pkt_len_be32 using assms by (subst len4_wraps) (simp_all add: uint_of_be32)
  have "be32 b < 2 ^ 32" by (rule be32_bound)
  then show "\<not> pkt_len b + 4 > of_nat BUFSZ"
    by (simp add: word_less_alt u BUFSZ_def)
  have "nat (uint (pkt_len b + 4)) = be32 b + 4 - 2 ^ 32"
    using assms by (simp add: u nat_diff_distrib' del: nat_uint_eq)
  then show "unat (pkt_len b + 4) = be32 b + 4 - 2 ^ 32" by simp
qed

subsection \<open>The KexInit arm of the switch\<close>

lemma kk_input_recv:
  "kk_recv conn rd = Some c \<Longrightarrow> kk_input conn rd = kk_dispatch c"
  by (simp add: kk_input_def)

lemma kk_close_const: "kk_close c = kk_close conn"
  by (simp add: kk_close_def)

lemma kk_input_kexinit_frame:
  assumes "4 \<le> buflen c" and "be32 (buf c) + 4 \<le> BUFSZ" and "be32 (buf c) + 4 \<le> buflen c"
  shows "kk_input_kexinit c =
     (if buf c ! 5 = 1 then (0, kk_close c)
      else (0, c\<lparr>buf := memmove_front (buf c) (be32 (buf c) + 4) (buflen c),
                  buflen := buflen c - (be32 (buf c) + 4)\<rparr>))"
  using assms pkt_len_fits [of "buf c"]
  by (simp add: kk_input_kexinit_def Let_def)

lemma kk_input_kexinit_oversize:
  assumes "4 \<le> buflen c" and "BUFSZ < be32 (buf c) + 4" and "be32 (buf c) + 4 < 2 ^ 32"
  shows "kk_input_kexinit c = (-1, kk_close c)"
  using assms pkt_len_big [of "buf c"]
  by (simp add: kk_input_kexinit_def Let_def)

lemma memmove_front_keeps:
  assumes "eop \<le> eom" and "eom \<le> length b"
  shows "take (eom - eop) (memmove_front b eop eom) = drop eop (take eom b)"
proof -
  have "length (take (eom - eop) (drop eop b)) = eom - eop"
    using assms by simp
  then have "take (eom - eop) (memmove_front b eop eom) = take (eom - eop) (drop eop b)"
    by (simp add: memmove_front_def)
  also have "\<dots> = drop eop (take eom b)"
    using assms by (simp add: drop_take)
  finally show ?thesis .
qed

text \<open>
  C6. In the KexInit stage, when the buffer after the receive holds a complete packet
  of declared length \<open>L\<close>, with \<open>L + 4\<close> within the capacity, and the byte tested for
  the disconnect type is not 1, the call returns 0, the connection stays in the KexInit
  stage, the buffered length drops by exactly \<open>L + 4\<close>, and the buffered bytes are the
  former ones without their first \<open>L + 4\<close>, in the same order.
\<close>

theorem kexinit_packet_consumed:
  assumes "kk_recv conn rd = Some c"
    and "state c = kk_kexinit"
    and "4 \<le> buflen c" and "buflen c \<le> length (buf c)"
    and "L = be32 (buf c)" and "L + 4 \<le> BUFSZ" and "L + 4 \<le> buflen c"
    and "buf c ! 5 \<noteq> 1"
  shows "fst (kk_input conn rd) = 0 \<and>
         state (snd (kk_input conn rd)) = kk_kexinit \<and>
         fd (snd (kk_input conn rd)) = fd c \<and>
         buflen (snd (kk_input conn rd)) = buflen c - (L + 4) \<and>
         take (buflen (snd (kk_input conn rd))) (buf (snd (kk_input conn rd))) =
           drop (L + 4) (take (buflen c) (buf c))"
proof -
  have "kk_input conn rd = kk_input_kexinit c"
    using assms(1,2) by (simp add: kk_input_recv kk_dispatch_def)
  also have "\<dots> = (0, c\<lparr>buf := memmove_front (buf c) (L + 4) (buflen c),
                          buflen := buflen c - (L + 4)\<rparr>)"
    using assms(3,5,6,7,8) by (simp add: kk_input_kexinit_frame)
  finally have r: "kk_input conn rd =
      (0, c\<lparr>buf := memmove_front (buf c) (L + 4) (buflen c), buflen := buflen c - (L + 4)\<rparr>)" .
  have "take (buflen c - (L + 4)) (memmove_front (buf c) (L + 4) (buflen c)) =
      drop (L + 4) (take (buflen c) (buf c))"
    using assms(4,7) by (rule memmove_front_keeps [rotated])
  with r assms(2) show ?thesis by simp
qed

lemma kex_conn_recv:
  "length d \<le> 2048 \<Longrightarrow>
   kk_recv kex_conn (ReadData d) =
     Some (kex_conn\<lparr>buf := read_into (buf kex_conn) BUFSZ d, buflen := length d\<rparr>)"
  by (simp add: kk_recv_def kex_conn_def banner_conn_def BUFSZ_def)

theorem kexinit_packet_consumed_witness:
  "kk_recv kex_conn (ReadData kexinit_frame) =
     Some (kex_conn\<lparr>buf := read_into (buf kex_conn) BUFSZ kexinit_frame, buflen := 10\<rparr>) \<and>
   be32 kexinit_frame = 2 \<and>
   fst (kk_input kex_conn (ReadData kexinit_frame)) = 0 \<and>
   state (snd (kk_input kex_conn (ReadData kexinit_frame))) = kk_kexinit \<and>
   buflen (snd (kk_input kex_conn (ReadData kexinit_frame))) = 4 \<and>
   take 4 (buf (snd (kk_input kex_conn (ReadData kexinit_frame)))) = [0x00, 0x00, 0x00, 0x09]"
proof -
  define c where "c = kex_conn\<lparr>buf := read_into (buf kex_conn) BUFSZ kexinit_frame, buflen := 10\<rparr>"
  have recv: "kk_recv kex_conn (ReadData kexinit_frame) = Some c"
    by (simp add: c_def kex_conn_recv kexinit_frame_def)
  have len: "length kexinit_frame = 10"
    by (simp add: kexinit_frame_def)
  have b: "buf c = kexinit_frame @ drop 10 (buf kex_conn)"
    by (simp add: c_def read_into_def len BUFSZ_def)
  have st: "state c = kk_kexinit" "buflen c = 10" "length (buf c) = 2048"
    by (simp_all add: c_def kex_conn_def banner_conn_def read_into_def kexinit_frame_def
        BUFSZ_def bytes_of_def)
  have L: "be32 (buf c) = 2" "be32 kexinit_frame = 2"
    by (simp_all add: b be32_def kexinit_frame_def)
  have t: "buf c ! 5 \<noteq> 1"
    by (simp add: b kexinit_frame_def)
  have "drop (2 + 4) (take (buflen c) (buf c)) = [0x00, 0x00, 0x00, 0x09]"
    by (simp add: b st kexinit_frame_def)
  with kexinit_packet_consumed [OF recv st(1), of 2] st L t recv show ?thesis
    by (auto simp add: BUFSZ_def c_def)
qed

text \<open>
  C9. In the KexInit stage, once the buffer after the receive holds a complete frame of
  declared length \<open>L\<close> (with \<open>L + 4\<close> within the capacity), the connection is closed as
  disconnected exactly when the byte at buffer offset 5 is 1, whatever \<open>L\<close> is and however
  many bytes are buffered: also for \<open>L < 2\<close>, where offset 5 lies behind the frame, and
  for fewer than six buffered bytes, where it lies behind the received data.
\<close>

theorem type_byte_at_offset_5:
  assumes "kk_recv conn rd = Some c"
    and "state c = kk_kexinit"
    and "4 \<le> buflen c"
    and "be32 (buf c) + 4 \<le> BUFSZ" and "be32 (buf c) + 4 \<le> buflen c"
  shows "(state (snd (kk_input conn rd)) = kk_closed) = (buf c ! 5 = 1)"
proof -
  have "kk_input conn rd = kk_input_kexinit c"
    using assms(1,2) by (simp add: kk_input_recv kk_dispatch_def)
  then show ?thesis
    using assms(2-5) by (simp add: kk_input_kexinit_frame kk_close_def)
qed

theorem type_byte_at_offset_5_witness:
  "kk_recv kex_conn (ReadData short_frame) =
     Some (kex_conn\<lparr>buf := read_into (buf kex_conn) BUFSZ short_frame, buflen := 6\<rparr>) \<and>
   be32 short_frame = 1 \<and> short_frame ! 5 = 1 \<and>
   state (snd (kk_input kex_conn (ReadData short_frame))) = kk_closed \<and>
   kk_recv kex_conn (ReadData empty_frame) =
     Some (kex_conn\<lparr>buf := read_into (buf kex_conn) BUFSZ empty_frame, buflen := 4\<rparr>) \<and>
   be32 empty_frame = 0 \<and>
   read_into (buf kex_conn) BUFSZ empty_frame ! 5 = of_char CHR ''.'' \<and>
   state (snd (kk_input kex_conn (ReadData empty_frame))) = kk_kexinit"
proof -
  define c where "c = kex_conn\<lparr>buf := read_into (buf kex_conn) BUFSZ short_frame, buflen := 6\<rparr>"
  have len: "length short_frame = 6"
    by (simp add: short_frame_def)
  have recv: "kk_recv kex_conn (ReadData short_frame) = Some c"
    by (simp add: c_def kex_conn_recv len)
  have b: "buf c = short_frame @ drop 6 (buf kex_conn)"
    by (simp add: c_def read_into_def len BUFSZ_def)
  have st: "state c = kk_kexinit" "buflen c = 6"
    by (simp_all add: c_def kex_conn_def banner_conn_def)
  have L: "be32 (buf c) = 1" "be32 short_frame = 1"
    by (simp_all add: b be32_def short_frame_def)
  have t: "buf c ! 5 = 1" "short_frame ! 5 = 1"
    by (simp_all add: b short_frame_def)
  from type_byte_at_offset_5 [OF recv st(1)] st L t recv
  have first: "kk_recv kex_conn (ReadData short_frame) =
     Some (kex_conn\<lparr>buf := read_into (buf kex_conn) BUFSZ short_frame, buflen := 6\<rparr>) \<and>
     be32 short_frame = 1 \<and> short_frame ! 5 = 1 \<and>
     state (snd (kk_input kex_conn (ReadData short_frame))) = kk_closed"
    by (auto simp add: BUFSZ_def c_def)
  define e where "e = kex_conn\<lparr>buf := read_into (buf kex_conn) BUFSZ empty_frame, buflen := 4\<rparr>"
  have len': "length empty_frame = 4"
    by (simp add: empty_frame_def)
  have recv': "kk_recv kex_conn (ReadData empty_frame) = Some e"
    by (simp add: e_def kex_conn_recv len')
  have b': "buf e = empty_frame @ drop 4 (buf kex_conn)"
    by (simp add: e_def read_into_def len' BUFSZ_def)
  have st': "state e = kk_kexinit" "buflen e = 4"
    by (simp_all add: e_def kex_conn_def banner_conn_def)
  have L': "be32 (buf e) = 0" "be32 empty_frame = 0"
    by (simp_all add: b' be32_def empty_frame_def)
  have t': "buf e ! 5 = of_char CHR ''.''"
    by (simp add: b' empty_frame_def kex_conn_def banner_conn_def bytes_of_def)
  then have ne: "buf e ! 5 \<noteq> 1" by simp
  from type_byte_at_offset_5 [OF recv' st'(1)] st' L' ne
  have "state (snd (kk_input kex_conn (ReadData empty_frame))) \<noteq> kk_closed"
    by (simp add: BUFSZ_def)
  moreover have "kk_input kex_conn (ReadData empty_frame) = kk_input_kexinit e"
    using recv' st' by (simp add: kk_input_recv kk_dispatch_def)
  then have "state (snd (kk_input kex_conn (ReadData empty_frame))) = kk_kexinit \<or>
      state (snd (kk_input kex_conn (ReadData empty_frame))) = kk_closed"
    using st' L' by (simp add: kk_input_kexinit_frame BUFSZ_def kk_close_def)
  ultimately have "state (snd (kk_input kex_conn (ReadData empty_frame))) = kk_kexinit"
    by simp
  with recv' L' t' first show ?thesis
    by (simp add: e_def)
qed

subsection \<open>Disconnect messages\<close>

text \<open>
  C2, as the code has it. In the KexInit stage, when the buffer after the receive starts
  with a complete frame (at least four bytes buffered, declared length \<open>L\<close> with \<open>L + 4\<close>
  within the capacity and within the buffered bytes) whose byte at buffer offset 5 is 1,
  \<^verbatim>\<open>kk_input\<close> closes the connection and returns 0: no error is reported.
\<close>

theorem disconnect_closes_without_error:
  assumes "kk_recv conn rd = Some c"
    and "state c = kk_kexinit"
    and "4 \<le> buflen c"
    and "be32 (buf c) + 4 \<le> BUFSZ" and "be32 (buf c) + 4 \<le> buflen c"
    and "buf c ! 5 = 1"
  shows "kk_input conn rd = (0, kk_close conn)"
proof -
  have "kk_input conn rd = kk_input_kexinit c"
    using assms(1,2) by (simp add: kk_input_recv kk_dispatch_def)
  also have "\<dots> = (0, kk_close c)"
    using assms(3-6) by (simp add: kk_input_kexinit_frame)
  finally show ?thesis by (simp add: kk_close_const [of c conn])
qed

theorem disconnect_closes_without_error_witness:
  "kk_recv kex_conn (ReadData disconnect_frame) =
     Some (kex_conn\<lparr>buf := read_into (buf kex_conn) BUFSZ disconnect_frame, buflen := 6\<rparr>) \<and>
   be32 disconnect_frame = 2 \<and> disconnect_frame ! 5 = 1 \<and>
   kk_input kex_conn (ReadData disconnect_frame) = (0, kk_close kex_conn)"
proof -
  define c where
    "c = kex_conn\<lparr>buf := read_into (buf kex_conn) BUFSZ disconnect_frame, buflen := 6\<rparr>"
  have len: "length disconnect_frame = 6"
    by (simp add: disconnect_frame_def)
  have recv: "kk_recv kex_conn (ReadData disconnect_frame) = Some c"
    by (simp add: c_def kex_conn_recv len)
  have b: "buf c = disconnect_frame @ drop 6 (buf kex_conn)"
    by (simp add: c_def read_into_def len BUFSZ_def)
  have st: "state c = kk_kexinit" "buflen c = 6"
    by (simp_all add: c_def kex_conn_def banner_conn_def)
  have L: "be32 (buf c) = 2" "be32 disconnect_frame = 2"
    by (simp_all add: b be32_def disconnect_frame_def)
  have t: "buf c ! 5 = 1" "disconnect_frame ! 5 = 1"
    by (simp_all add: b disconnect_frame_def)
  from disconnect_closes_without_error [OF recv st(1)] st L t recv show ?thesis
    by (auto simp add: BUFSZ_def c_def)
qed

text \<open>
  The scenario of the specification fails on the code. The read of \<^verbatim>\<open>00 00 00 02\<close>
  leaves the connection waiting for two more bytes; the read of \<^verbatim>\<open>01 00\<close> is stored at
  the start of the buffer, the length field then reads \<^verbatim>\<open>01 00 00 02\<close> and the connection
  is closed as an oversize packet with return value -1. The same six bytes in one read
  are a packet with 0 at offset 5: it is consumed and the connection stays open.
\<close>

theorem split_disconnect_reports_error:
  "kk_input kex_conn (ReadData six_bytes_1) = (0, len_conn) \<and>
   kk_input len_conn (ReadData six_bytes_2) = (-1, kk_close len_conn) \<and>
   fst (kk_input kex_conn (ReadData six_bytes)) = 0 \<and>
   state (snd (kk_input kex_conn (ReadData six_bytes))) = kk_kexinit"
proof -
  have 1: "kk_input kex_conn (ReadData six_bytes_1) = (0, len_conn)"
    by (simp add: len_conn_def kex_conn_def banner_conn_def six_bytes_1_def kk_eval)
  have 2: "kk_input len_conn (ReadData six_bytes_2) = (-1, kk_close len_conn)"
    by (simp add: len_conn_def kex_conn_def banner_conn_def six_bytes_1_def six_bytes_2_def
        kk_eval)
  have 3: "fst (kk_input kex_conn (ReadData six_bytes)) = 0"
    "state (snd (kk_input kex_conn (ReadData six_bytes))) = kk_kexinit"
    by (simp_all add: kex_conn_def banner_conn_def six_bytes_def kk_eval)
  from 1 2 3 show ?thesis by simp
qed

subsection \<open>Oversize packets\<close>

text \<open>
  A declared length \<open>L\<close> with \<open>L + 4\<close> beyond the capacity and below \<open>2 ^ 32\<close> closes
  the connection with return value -1.
\<close>

lemma oversize_below_wrap_closes:
  assumes "kk_recv conn rd = Some c"
    and "state c = kk_kexinit"
    and "4 \<le> buflen c"
    and "BUFSZ < be32 (buf c) + 4" and "be32 (buf c) + 4 < 2 ^ 32"
  shows "kk_input conn rd = (-1, kk_close conn)"
proof -
  have "kk_input conn rd = kk_input_kexinit c"
    using assms(1,2) by (simp add: kk_input_recv kk_dispatch_def)
  also have "\<dots> = (-1, kk_close c)"
    using assms(3-5) by (rule kk_input_kexinit_oversize)
  finally show ?thesis by (simp add: kk_close_const [of c conn])
qed

text \<open>
  A declared length \<open>L\<close> from \<open>2 ^ 32 - 4\<close> on does not: the packet is taken to be
  \<open>L + 4 - 2 ^ 32\<close> bytes long, at most three.
\<close>

lemma oversize_from_wrap_stays_open:
  assumes "kk_recv conn rd = Some c"
    and "state c = kk_kexinit"
    and "4 \<le> buflen c"
    and "2 ^ 32 \<le> be32 (buf c) + 4"
    and "buf c ! 5 \<noteq> 1"
  shows "kk_input conn rd =
     (0, c\<lparr>buf := memmove_front (buf c) (be32 (buf c) + 4 - 2 ^ 32) (buflen c),
            buflen := buflen c - (be32 (buf c) + 4 - 2 ^ 32)\<rparr>)"
proof -
  have "be32 (buf c) < 2 ^ 32" by (rule be32_bound)
  then have "be32 (buf c) + 4 - 2 ^ 32 \<le> buflen c"
    using assms(3) by simp
  moreover have "kk_input conn rd = kk_input_kexinit c"
    using assms(1,2) by (simp add: kk_input_recv kk_dispatch_def)
  ultimately show ?thesis
    using assms(3,5) pkt_len_wraps [OF assms(4)]
    by (simp add: kk_input_kexinit_def Let_def)
qed

text \<open>
  C7. The claim fails for the declared lengths from \<open>2 ^ 32 - 4\<close> on. After the read of
  \<^verbatim>\<open>ff ff ff ff 00 00\<close> the declared length is 4294967295, so that the frame exceeds the
  capacity of 2048 bytes, but the sum \<^verbatim>\<open>len + 4\<close> wraps around to 3: the test for an
  oversize packet does not fire, \<^verbatim>\<open>kk_input\<close> returns 0, three bytes are removed from
  the buffer and the connection stays open in the KexInit stage.
\<close>

theorem oversize_length_wraps:
  "kk_recv kex_conn (ReadData wrap_frame) = Some wrap_conn \<and>
   state wrap_conn = kk_kexinit \<and> 4 \<le> buflen wrap_conn \<and>
   be32 (buf wrap_conn) = 4294967295 \<and>
   BUFSZ < be32 (buf wrap_conn) + 4 \<and>
   pkt_len (buf wrap_conn) + 4 = 3 \<and>
   fst (kk_input kex_conn (ReadData wrap_frame)) = 0 \<and>
   state (snd (kk_input kex_conn (ReadData wrap_frame))) = kk_kexinit \<and>
   fd (snd (kk_input kex_conn (ReadData wrap_frame))) = 3 \<and>
   buflen (snd (kk_input kex_conn (ReadData wrap_frame))) = 3"
proof -
  have len: "length wrap_frame = 6"
    by (simp add: wrap_frame_def)
  have recv: "kk_recv kex_conn (ReadData wrap_frame) = Some wrap_conn"
    by (simp add: wrap_conn_def kex_conn_recv len)
  have b: "buf wrap_conn = wrap_frame @ drop 6 (buf kex_conn)"
    by (simp add: wrap_conn_def read_into_def len BUFSZ_def)
  have st: "state wrap_conn = kk_kexinit" "buflen wrap_conn = 6" "fd wrap_conn = 3"
    by (simp_all add: wrap_conn_def kex_conn_def banner_conn_def)
  have L: "be32 (buf wrap_conn) = 4294967295"
    by (simp add: b be32_def wrap_frame_def)
  have p: "pkt_len (buf wrap_conn) + 4 = 3"
    by (simp add: b pkt_len_def wrap_frame_def)
  have t: "buf wrap_conn ! 5 \<noteq> 1"
    by (simp add: b wrap_frame_def)
  have "kk_input kex_conn (ReadData wrap_frame) = kk_input_kexinit wrap_conn"
    using recv st(1) by (simp add: kk_input_recv kk_dispatch_def)
  also have "\<dots> = (0, wrap_conn\<lparr>buf := memmove_front (buf wrap_conn) 3 6, buflen := 3\<rparr>)"
    using st t by (simp add: kk_input_kexinit_def p BUFSZ_def)
  finally have r: "kk_input kex_conn (ReadData wrap_frame) =
    (0, wrap_conn\<lparr>buf := memmove_front (buf wrap_conn) 3 6, buflen := 3\<rparr>)" .
  from recv st L p r show ?thesis by (simp add: BUFSZ_def)
qed

subsection \<open>The Connected arm of the switch\<close>

lemma find_cr_first:
  assumes "p < eom" and "p < length b" and "b ! p = CR" and "CR \<notin> set (take p b)"
    and "eop \<le> p"
  shows "find_cr b eom eop = p"
  using assms(5)
proof (induction "p - eop" arbitrary: eop)
  case 0
  then have "eop = p" by simp
  with assms(1,3) show ?case by (subst find_cr.simps) simp
next
  case (Suc d)
  then have lt: "eop < p" by simp
  then have "take p b ! eop = b ! eop" by simp
  moreover have "take p b ! eop \<in> set (take p b)"
    using lt assms(2) by (intro nth_mem) simp
  ultimately have "b ! eop \<noteq> CR" using assms(4) by metis
  moreover have "find_cr b eom (eop + 1) = p"
    using Suc lt by (intro Suc.hyps(1)) simp_all
  ultimately show ?case
    using lt assms(1) by (subst find_cr.simps) simp
qed

lemma find_cr_none:
  assumes "CR \<notin> set (take eom b)" and "eom \<le> length b" and "eop \<le> eom"
  shows "find_cr b eom eop = eom"
  using assms(3)
proof (induction "eom - eop" arbitrary: eop)
  case 0
  then show ?case by (subst find_cr.simps) simp
next
  case (Suc d)
  then have lt: "eop < eom" by simp
  then have "take eom b ! eop = b ! eop" by simp
  moreover have "take eom b ! eop \<in> set (take eom b)"
    using lt assms(2) by (intro nth_mem) simp
  ultimately have "b ! eop \<noteq> CR" using assms(1) by metis
  moreover have "find_cr b eom (eop + 1) = eom"
    using Suc lt by (intro Suc.hyps(1)) simp_all
  ultimately show ?case
    using lt by (subst find_cr.simps) simp
qed

lemma ssh20_prefix_bytes:
  "length (bytes_of ''SSH-2.0-'') = 8" "0 \<notin> set (bytes_of ''SSH-2.0-'')"
  "CR \<notin> set (bytes_of ''SSH-2.0-'')"
  by (simp_all add: bytes_of_def CR_def)

text \<open>
  Writing the NUL over the carriage return does not change whether the buffer begins
  with the prefix: the prefix holds neither byte.
\<close>

lemma prefix_after_nul:
  assumes "b ! p = CR" and "p < length b"
  shows "(take 8 (b[p := 0]) = bytes_of ''SSH-2.0-'') = (take 8 b = bytes_of ''SSH-2.0-'')"
proof (cases "p < 8")
  case True
  have l: "\<not> take 8 (b[p := 0]) = bytes_of ''SSH-2.0-''"
  proof
    assume e: "take 8 (b[p := 0]) = bytes_of ''SSH-2.0-''"
    have "take 8 (b[p := 0]) ! p = 0" using True assms(2) by simp
    moreover have "bytes_of ''SSH-2.0-'' ! p \<in> set (bytes_of ''SSH-2.0-'')"
      using True by (intro nth_mem) (simp add: ssh20_prefix_bytes)
    ultimately show False using e ssh20_prefix_bytes(2) by metis
  qed
  have r: "\<not> take 8 b = bytes_of ''SSH-2.0-''"
  proof
    assume e: "take 8 b = bytes_of ''SSH-2.0-''"
    have "take 8 b ! p = CR" using True assms by simp
    moreover have "bytes_of ''SSH-2.0-'' ! p \<in> set (bytes_of ''SSH-2.0-'')"
      using True by (intro nth_mem) (simp add: ssh20_prefix_bytes)
    ultimately show False using e ssh20_prefix_bytes(3) by metis
  qed
  from l r show ?thesis by simp
next
  case False
  then show ?thesis by simp
qed

lemma kk_input_connected_line:
  assumes "p + 1 < buflen c" and "buflen c \<le> length (buf c)"
    and "buf c ! p = CR" and "CR \<notin> set (take p (buf c))"
  shows "kk_input_connected c =
     (if buf c ! (p + 1) = LF \<and> p \<le> 253 \<and> take 8 (buf c) = bytes_of ''SSH-2.0-''
      then (0, c\<lparr>buf := memmove_front ((buf c)[p := 0]) (p + 2) (buflen c),
                  buflen := buflen c - (p + 2),
                  state := kk_banner\<rparr>)
      else (-1, kk_close c))"
proof -
  have f: "find_cr (buf c) (buflen c) 0 = p"
    using assms by (intro find_cr_first) simp_all
  have pre: "(take 8 ((buf c)[p := 0]) = bytes_of ''SSH-2.0-'') =
      (take 8 (buf c) = bytes_of ''SSH-2.0-'')"
    using assms by (intro prefix_after_nul) simp_all
  show ?thesis
    using assms(1) by (auto simp add: kk_input_connected_def f Let_def strncmp_ssh20 pre)
qed

lemma kk_input_connected_wait:
  assumes "CR \<notin> set (take (buflen c - 1) (buf c))" and "buflen c \<le> length (buf c)"
  shows "kk_input_connected c = (0, c)"
proof (cases "CR \<in> set (take (buflen c) (buf c))")
  case False
  then have "find_cr (buf c) (buflen c) 0 = buflen c"
    using assms(2) by (intro find_cr_none) simp_all
  then show ?thesis by (simp add: kk_input_connected_def)
next
  case True
  then have pos: "0 < buflen c" by (cases "buflen c") auto
  have "buf c ! (buflen c - 1) = CR"
  proof (rule ccontr)
    assume n: "buf c ! (buflen c - 1) \<noteq> CR"
    have "take (buflen c) (buf c) =
        take (buflen c - 1) (buf c) @ [buf c ! (buflen c - 1)]"
      using pos assms(2) take_Suc_conv_app_nth [of "buflen c - 1" "buf c"] by simp
    with True assms(1) n show False by simp
  qed
  then have "find_cr (buf c) (buflen c) 0 = buflen c - 1"
    using assms pos by (intro find_cr_first) simp_all
  then show ?thesis using pos by (simp add: kk_input_connected_def)
qed

lemma banner_residue:
  assumes "p + 2 \<le> n" and "n \<le> length b"
  shows "take (n - (p + 2)) (memmove_front (b[p := 0]) (p + 2) n) = drop (p + 2) (take n b)"
proof -
  have "take (n - (p + 2)) (memmove_front (b[p := 0]) (p + 2) n) =
      drop (p + 2) (take n (b[p := 0]))"
    using assms by (intro memmove_front_keeps) simp_all
  also have "\<dots> = drop (p + 2) (take n b)"
    by (simp add: take_update_swap)
  finally show ?thesis .
qed

text \<open>
  C5, as the code has it. In the Connected stage, let the first carriage return of the
  buffer after the receive stand at offset \<open>p\<close>, with one more byte buffered behind it.
  The banner is accepted if and only if that byte is a line feed, the buffer begins with
  the eight bytes \<^verbatim>\<open>SSH-2.0-\<close>, and \<open>p\<close> is at most 253 (the line with its terminator
  is at most 255 bytes long). Then the call returns 0, the stage is Banner, and the
  buffered bytes are the ones that followed the line feed. In every other case the
  connection is closed with return value -1.
\<close>

theorem banner_accepted_iff:
  assumes "kk_recv conn rd = Some c"
    and "state c = kk_connected"
    and "buflen c \<le> length (buf c)"
    and "p + 1 < buflen c" and "buf c ! p = CR" and "CR \<notin> set (take p (buf c))"
  shows "if buf c ! (p + 1) = LF \<and> p \<le> 253 \<and> take 8 (buf c) = bytes_of ''SSH-2.0-''
         then fst (kk_input conn rd) = 0 \<and>
              state (snd (kk_input conn rd)) = kk_banner \<and>
              buflen (snd (kk_input conn rd)) = buflen c - (p + 2) \<and>
              take (buflen (snd (kk_input conn rd))) (buf (snd (kk_input conn rd))) =
                drop (p + 2) (take (buflen c) (buf c))
         else kk_input conn rd = (-1, kk_close conn)"
proof -
  have i: "kk_input conn rd = kk_input_connected c"
    using assms(1,2) by (simp add: kk_input_recv kk_dispatch_def)
  have r: "take (buflen c - (p + 2)) (memmove_front ((buf c)[p := 0]) (p + 2) (buflen c)) =
      drop (p + 2) (take (buflen c) (buf c))"
    using assms(3,4) by (intro banner_residue) simp_all
  show ?thesis
    unfolding i kk_input_connected_line [OF assms(4,3,5,6)]
    using r by (simp add: kk_close_const [of c conn])
qed

lemma fresh_conn_recv:
  "length d \<le> 2048 \<Longrightarrow>
   kk_recv fresh_conn (ReadData d) =
     Some (fresh_conn\<lparr>buf := d @ replicate (2048 - length d) 0, buflen := length d\<rparr>)"
  by (simp add: kk_recv_def fresh_conn_def BUFSZ_def read_into_def)

theorem banner_accepted_iff_witness:
  "kk_recv fresh_conn (ReadData peer_banner) =
     Some (fresh_conn\<lparr>buf := peer_banner @ replicate 2027 0, buflen := 21\<rparr>) \<and>
   peer_banner ! 19 = CR \<and> CR \<notin> set (take 19 peer_banner) \<and> peer_banner ! 20 = LF \<and>
   take 8 peer_banner = bytes_of ''SSH-2.0-'' \<and>
   fst (kk_input fresh_conn (ReadData peer_banner)) = 0 \<and>
   state (snd (kk_input fresh_conn (ReadData peer_banner))) = kk_banner \<and>
   buflen (snd (kk_input fresh_conn (ReadData peer_banner))) = 0"
proof -
  define c where "c = fresh_conn\<lparr>buf := peer_banner @ replicate 2027 0, buflen := 21\<rparr>"
  have len: "length peer_banner = 21"
    by (simp add: peer_banner_def bytes_of_def)
  have recv: "kk_recv fresh_conn (ReadData peer_banner) = Some c"
    by (simp add: c_def fresh_conn_recv len)
  have st: "state c = kk_connected" "buflen c = 21" "length (buf c) = 2048"
    by (simp_all add: c_def fresh_conn_def len)
  have b: "buf c ! 19 = CR" "CR \<notin> set (take 19 (buf c))" "buf c ! 20 = LF"
    "take 8 (buf c) = bytes_of ''SSH-2.0-''"
    by (simp_all add: c_def peer_banner_def bytes_of_def CR_def LF_def)
  have pb: "peer_banner ! 19 = CR" "CR \<notin> set (take 19 peer_banner)" "peer_banner ! 20 = LF"
    "take 8 peer_banner = bytes_of ''SSH-2.0-''"
    by (simp_all add: peer_banner_def bytes_of_def CR_def LF_def)
  have "19 + 1 < buflen c" "buflen c \<le> length (buf c)"
    by (simp_all add: st)
  from banner_accepted_iff [OF recv st(1) this(2,1) b(1,2)] b st pb recv show ?thesis
    by (auto simp add: c_def)
qed

text \<open>
  The claim as the specification states it fails on a line of 254 bytes before its
  terminator that begins with the prefix: it is at most 255 bytes long before the
  terminator, and it is rejected, with return value -1.
\<close>

theorem long_banner_rejected:
  "length long_banner = 254 + 2 \<and> long_banner ! 254 = CR \<and> long_banner ! 255 = LF \<and>
   CR \<notin> set (take 254 long_banner) \<and> take 8 long_banner = bytes_of ''SSH-2.0-'' \<and>
   kk_input fresh_conn (ReadData long_banner) = (-1, kk_close fresh_conn)"
proof -
  define c where "c = fresh_conn\<lparr>buf := long_banner @ replicate 1792 0, buflen := 256\<rparr>"
  have len: "length long_banner = 256"
    by (simp add: long_banner_def bytes_of_def)
  have recv: "kk_recv fresh_conn (ReadData long_banner) = Some c"
    by (simp add: c_def fresh_conn_recv len)
  have st: "state c = kk_connected" "buflen c = 256" "length (buf c) = 2048"
    by (simp_all add: c_def fresh_conn_def len)
  have pb: "long_banner ! 254 = CR" "CR \<notin> set (take 254 long_banner)"
    "long_banner ! 255 = LF" "take 8 long_banner = bytes_of ''SSH-2.0-''"
    by (simp_all add: long_banner_def bytes_of_def CR_def LF_def nth_append)
  have b: "buf c ! 254 = CR" "CR \<notin> set (take 254 (buf c))"
    using pb by (simp_all add: c_def nth_append len)
  have "kk_input fresh_conn (ReadData long_banner) = kk_input_connected c"
    using recv st(1) by (simp add: kk_input_recv kk_dispatch_def)
  also have "\<dots> = (-1, kk_close c)"
    using b st by (subst kk_input_connected_line [of 254]) simp_all
  finally show ?thesis
    using len pb by (simp add: kk_close_const [of c fresh_conn])
qed

subsection \<open>What kk_output sends\<close>

lemma kk_write_sent_prefix:
  "kk_write ws data = Some (r, sent) \<Longrightarrow> take (length sent) data = sent"
proof (induction ws data arbitrary: r sent rule: kk_write.induct)
  case (1 ws)
  then show ?case by simp
next
  case (2 x xs)
  then show ?case by simp
next
  case (3 wlen ws x xs)
  show ?case
  proof (cases "wlen < 0")
    case True
    with 3(2) show ?thesis by simp
  next
    case False
    with 3(2) obtain sent' where
      w: "kk_write ws (drop (nat wlen) (x # xs)) = Some (r, sent')" and
      s: "sent = take (nat wlen) (x # xs) @ sent'"
      by (auto split: option.splits)
    from 3(1) [OF False w] have p: "take (length sent') (drop (nat wlen) (x # xs)) = sent'" .
    define pre where "pre = take (nat wlen) (x # xs)"
    define rest where "rest = drop (nat wlen) (x # xs)"
    have d: "x # xs = pre @ rest" by (simp add: pre_def rest_def)
    have ls: "length sent = length pre + length sent'"
      using s by (simp add: pre_def)
    have "take (length sent) (x # xs) = take (length pre + length sent') (pre @ rest)"
      by (simp only: ls d [symmetric])
    also have "\<dots> = pre @ take (length sent') rest" by simp
    also have "\<dots> = sent" using p s by (simp add: pre_def rest_def)
    finally show ?thesis .
  qed
qed

lemma kk_write_sent_all:
  "kk_write ws data = Some (0, sent) \<Longrightarrow> sent = data"
proof (induction ws data arbitrary: sent rule: kk_write.induct)
  case (1 ws)
  then show ?case by simp
next
  case (2 x xs)
  then show ?case by simp
next
  case (3 wlen ws x xs)
  show ?case
  proof (cases "wlen < 0")
    case True
    with 3(2) show ?thesis by simp
  next
    case False
    with 3(2) obtain sent' where
      w: "kk_write ws (drop (nat wlen) (x # xs)) = Some (0, sent')" and
      s: "sent = take (nat wlen) (x # xs) @ sent'"
      by (auto split: option.splits)
    from 3(1) [OF False w] have "sent' = drop (nat wlen) (x # xs)" .
    with s show ?thesis by simp
  qed
qed

lemma kk_write_whole: "kk_write [int (length data)] data = Some (0, data)"
  by (cases data) simp_all

lemma kk_output_banner:
  assumes "state c = kk_banner" and "kk_output c ws = Some (0, c', sent)"
  shows "sent = banner \<and> c' = c\<lparr>state := kk_kexinit\<rparr>"
proof -
  from assms obtain r where w: "kk_write ws banner = Some (r, sent)" and
    "(if r \<noteq> 0 then (-1, kk_close c) else (0, c\<lparr>state := kk_kexinit\<rparr>)) = (0 :: int, c')"
    by (auto simp add: kk_output_def split: option.splits if_splits)
  then have "r = 0" and c: "c' = c\<lparr>state := kk_kexinit\<rparr>"
    by (auto split: if_splits)
  with w have "sent = banner" by (intro kk_write_sent_all) simp
  with c show ?thesis by simp
qed

lemma kk_output_kexinit:
  assumes "state c = kk_kexinit" and "kk_output c ws = Some (0, c', sent)"
  shows "sent = kexinit \<and> c' = c"
proof -
  from assms obtain r where w: "kk_write ws kexinit = Some (r, sent)" and
    "(if r \<noteq> 0 then (-1, kk_close c) else (0, c)) = (0 :: int, c')"
    by (auto simp add: kk_output_def split: option.splits if_splits)
  then have "r = 0" and c: "c' = c"
    by (auto split: if_splits)
  with w have "sent = kexinit" by (intro kk_write_sent_all) simp
  with c show ?thesis by simp
qed

text \<open>Once past the Banner stage, a connection sends nothing but the kexinit bytes.\<close>

lemma kk_input_past_banner:
  assumes "state c = kk_kexinit \<or> state c = kk_closed"
  shows "state (snd (kk_input c rd)) = kk_kexinit \<or> state (snd (kk_input c rd)) = kk_closed"
proof (cases "kk_recv c rd")
  case None
  then show ?thesis by (simp add: kk_input_def kk_close_def)
next
  case (Some c1)
  then have s: "state c1 = state c"
    by (auto simp add: kk_recv_def Let_def split: if_splits read_result.splits)
  have k: "state (snd (kk_input_kexinit c1)) = state c1 \<or>
      state (snd (kk_input_kexinit c1)) = kk_closed"
    by (simp add: kk_input_kexinit_def Let_def kk_close_def)
  from Some have "kk_input c rd = kk_dispatch c1" by (rule kk_input_recv)
  with assms s k show ?thesis
    by (auto simp add: kk_dispatch_def)
qed

lemma kk_output_past_banner:
  assumes "state c = kk_kexinit \<or> state c = kk_closed"
    and "kk_output c ws = Some (r, c', sent)"
  shows "(state c' = kk_kexinit \<or> state c' = kk_closed) \<and> take (length sent) kexinit = sent"
  using assms kk_write_sent_prefix [of ws kexinit]
  by (auto simp add: kk_output_def kk_close_def split: option.splits if_splits)

lemma kk_serve_past_banner:
  assumes "state c = kk_kexinit \<or> state c = kk_closed"
    and "kk_serve ev rd ws c = Some (c', sent)"
  shows "(state c' = kk_kexinit \<or> state c' = kk_closed) \<and> take (length sent) kexinit = sent"
proof (cases "ev AND (POLLERR OR POLLHUP) \<noteq> 0")
  case True
  with assms(2) show ?thesis by (auto simp add: kk_serve_def kk_close_def)
next
  case False
  define c1 where "c1 = (if ev AND POLLIN \<noteq> 0 then snd (kk_input c rd) else c)"
  have s1: "state c1 = kk_kexinit \<or> state c1 = kk_closed"
    using assms(1) kk_input_past_banner [of c rd] by (simp add: c1_def)
  show ?thesis
  proof (cases "ev AND POLLOUT \<noteq> 0")
    case True
    with False assms(2) obtain r where "kk_output c1 ws = Some (r, c', sent)"
      by (auto simp add: kk_serve_def c1_def Let_def split: option.splits)
    with s1 show ?thesis by (rule kk_output_past_banner)
  next
    case no_out: False
    with False assms(2) have "c' = c1" "sent = []"
      by (auto simp add: kk_serve_def c1_def Let_def)
    with s1 show ?thesis by simp
  qed
qed

lemma kk_serve_all_past_banner:
  assumes "state c = kk_kexinit \<or> state c = kk_closed"
    and "kk_serve_all es c = Some (c', sents)"
  shows "\<forall>sent \<in> set sents. take (length sent) kexinit = sent"
  using assms
proof (induction es arbitrary: c sents)
  case Nil
  then show ?case by simp
next
  case (Cons e es)
  obtain ev rd ws where e: "e = (ev, rd, ws)" by (cases e)
  from Cons.prems(2) obtain c1 sent sents' where
    1: "kk_serve ev rd ws c = Some (c1, sent)" and
    2: "kk_serve_all es c1 = Some (c', sents')" and
    3: "sents = sent # sents'"
    by (auto simp add: e split: option.splits)
  from kk_serve_past_banner [OF Cons.prems(1) 1]
  have s1: "state c1 = kk_kexinit \<or> state c1 = kk_closed"
    and t: "take (length sent) kexinit = sent" by simp_all
  from Cons.IH [OF s1 2] t 3 show ?case by simp
qed

text \<open>
  C4, as the code has it. When a connection in the Connected stage has received a banner
  that is accepted, so that it is in the Banner stage, the next call of \<^verbatim>\<open>kk_output\<close>
  whose writes succeed sends the literal banner in full and moves the connection to the
  KexInit stage, everything else unchanged. From then on every call of \<^verbatim>\<open>kk_output\<close>
  whose writes succeed sends the fixed kexinit bytes in full, once for each writable
  event, and leaves the connection as it is, in the KexInit stage; and whatever events
  follow, what a pass writes to the transport is an initial part of the kexinit bytes
  (all of it, or less when a write failed or the pass did not write), so the banner is
  not sent again.
\<close>

theorem banner_once_then_kexinit:
  assumes "state conn = kk_connected"
    and "kk_input conn rd = (r, c1)" and "state c1 = kk_banner"
    and "kk_output c1 ws = Some (0, c2, sent)"
  shows "sent = banner \<and> c2 = c1\<lparr>state := kk_kexinit\<rparr> \<and>
         (\<forall>ws' c3 sent'. kk_output c2 ws' = Some (0, c3, sent') \<longrightarrow> sent' = kexinit \<and> c3 = c2) \<and>
         (\<forall>es c' sents. kk_serve_all es c2 = Some (c', sents) \<longrightarrow>
            (\<forall>s \<in> set sents. take (length s) kexinit = s))"
proof -
  from kk_output_banner [OF assms(3,4)]
  have 1: "sent = banner" and 2: "c2 = c1\<lparr>state := kk_kexinit\<rparr>" by simp_all
  from 2 have st: "state c2 = kk_kexinit" by simp
  have 3: "\<forall>ws' c3 sent'. kk_output c2 ws' = Some (0, c3, sent') \<longrightarrow> sent' = kexinit \<and> c3 = c2"
    using kk_output_kexinit [OF st] by blast
  have 4: "\<forall>es c' sents. kk_serve_all es c2 = Some (c', sents) \<longrightarrow>
      (\<forall>s \<in> set sents. take (length s) kexinit = s)"
    using kk_serve_all_past_banner [of c2] st by blast
  from 1 2 3 4 show ?thesis by blast
qed

lemma banner_length: "length banner = 17"
  by (simp add: banner_def bytes_of_def)

lemma kexinit_length: "length kexinit = 208"
  by (simp add: kexinit_def bytes_of_def)

lemma kk_output_banner_conn: "kk_output banner_conn [17] = Some (0, kex_conn, banner)"
  using kk_write_whole [of banner]
  by (simp add: kk_output_def banner_conn_def kex_conn_def banner_length)

lemma kk_output_kex_conn: "kk_output kex_conn [208] = Some (0, kex_conn, kexinit)"
  using kk_write_whole [of kexinit]
  by (simp add: kk_output_def banner_conn_def kex_conn_def kexinit_length)

theorem banner_once_then_kexinit_witness:
  "state fresh_conn = kk_connected \<and>
   kk_input fresh_conn (ReadData peer_banner) = (0, banner_conn) \<and>
   state banner_conn = kk_banner \<and>
   kk_output banner_conn [17] = Some (0, kex_conn, banner) \<and>
   kex_conn = banner_conn\<lparr>state := kk_kexinit\<rparr> \<and>
   kk_output kex_conn [208] = Some (0, kex_conn, kexinit)"
proof -
  have 1: "state fresh_conn = kk_connected" by (simp add: fresh_conn_def)
  have 2: "state banner_conn = kk_banner" by (simp add: banner_conn_def)
  from banner_once_then_kexinit [OF 1 banner_conn_reached 2 kk_output_banner_conn]
  have "kex_conn = banner_conn\<lparr>state := kk_kexinit\<rparr>" by simp
  with 1 2 banner_conn_reached kk_output_banner_conn kk_output_kex_conn show ?thesis
    by simp
qed

text \<open>
  The scenario of the specification fails on the code. With the banner split over two
  reads the connection is closed at the second read and nothing is written to the
  transport. With the banner in one read, the pass that reads it sends the banner, and
  each of the two passes that follow sends the kexinit bytes: they are sent twice.
\<close>

theorem banner_scenario_fails:
  "kk_serve_all split_events fresh_conn = Some (kk_close fresh_conn, [[], []]) \<and>
   kk_serve_all whole_events fresh_conn = Some (kex_conn, [banner, kexinit, kexinit])"
proof -
  note ev = POLLIN_def POLLOUT_def POLLERR_def POLLHUP_def
  have second: "kk_input half_conn (ReadData peer_banner_2) = (-1, kk_close fresh_conn)"
    by (simp add: half_conn_def peer_banner_2_def kk_eval)
  have s1: "kk_serve (POLLIN OR POLLOUT) (ReadData peer_banner_1) [17] fresh_conn =
      Some (half_conn, [])"
    by (simp add: kk_serve_def ev half_conn_reached kk_output_def half_conn_def)
  have s2: "kk_serve (POLLIN OR POLLOUT) (ReadData peer_banner_2) [17] half_conn =
      Some (kk_close fresh_conn, [])"
    by (simp add: kk_serve_def ev second kk_output_def kk_close_def)
  have w1: "kk_serve (POLLIN OR POLLOUT) (ReadData peer_banner) [17] fresh_conn =
      Some (kex_conn, banner)"
    by (simp add: kk_serve_def ev banner_conn_reached kk_output_banner_conn)
  have w2: "kk_serve POLLOUT (ReadData []) [208] kex_conn = Some (kex_conn, kexinit)"
    by (simp add: kk_serve_def ev kk_output_kex_conn)
  show ?thesis
    by (simp add: split_events_def whole_events_def s1 s2 w1 w2)
qed

subsection \<open>The first loop of a pass\<close>

lemma topup_slot_eq:
  assumes "i < length conns" and "i < length pfd"
  shows "topup_slot env i (conns, pfd, k, n) =
     (conns[i := topup_conn env i (conns ! i)],
      pfd[i := (pfd ! i)\<lparr>pfd_fd := fd (topup_conn env i (conns ! i)),
                events := (if state (topup_conn env i (conns ! i)) = kk_closed then POLLNVAL
                           else POLLIN OR POLLOUT OR POLLERR)\<rparr>],
      (if opens env conns i then k + 1 else k),
      (if state (topup_conn env i (conns ! i)) = kk_closed then n else i + 1))"
proof (cases "state (conns ! i) = kk_closed")
  case False
  then show ?thesis
    using assms
    by (simp add: topup_slot_def topup_conn_def opens_def Let_def list_update_same_conv)
next
  case True
  show ?thesis
  proof (cases "connect_res env i")
    case None
    with True assms show ?thesis
      by (simp add: topup_slot_def topup_conn_def opens_def kk_connect_def Let_def)
  next
    case (Some s)
    with True assms show ?thesis
      by (simp add: topup_slot_def topup_conn_def opens_def kk_connect_def Let_def)
  qed
qed

lemma topup_fold:
  assumes "m \<le> length conns" and "length pfd = length conns"
  shows "\<exists>conns' pfd' n'.
     fold (topup_slot env) [0..<m] (conns, pfd, k, n) =
       (conns', pfd', k + of_nat (length (filter (opens env conns) [0..<m])), n') \<and>
     length conns' = length conns \<and> length pfd' = length pfd \<and>
     (\<forall>i < length conns.
        conns' ! i = (if i < m then topup_conn env i (conns ! i) else conns ! i)) \<and>
     (\<forall>i < m. pfd_fd (pfd' ! i) = fd (conns' ! i)) \<and>
     (n' = 0 \<longleftrightarrow> n = 0 \<and> (\<forall>i < m. state (conns' ! i) = kk_closed))"
  using assms
proof (induction m)
  case 0
  then show ?case by simp
next
  case (Suc m)
  then have m: "m < length conns" by simp
  from Suc obtain conns1 pfd1 n1 where
    f: "fold (topup_slot env) [0..<m] (conns, pfd, k, n) =
        (conns1, pfd1, k + of_nat (length (filter (opens env conns) [0..<m])), n1)" and
    l: "length conns1 = length conns" "length pfd1 = length pfd" and
    c: "\<forall>i < length conns.
        conns1 ! i = (if i < m then topup_conn env i (conns ! i) else conns ! i)" and
    p: "\<forall>i < m. pfd_fd (pfd1 ! i) = fd (conns1 ! i)" and
    z: "n1 = 0 \<longleftrightarrow> n = 0 \<and> (\<forall>i < m. state (conns1 ! i) = kk_closed)"
    by force
  from c m have cm: "conns1 ! m = conns ! m" by simp
  have o: "opens env conns1 m = opens env conns m"
    by (simp add: opens_def cm)
  define c' where "c' = topup_conn env m (conns ! m)"
  define conns2 where "conns2 = conns1[m := c']"
  define pfd2 where "pfd2 = pfd1[m := (pfd1 ! m)\<lparr>pfd_fd := fd c',
      events := (if state c' = kk_closed then POLLNVAL else POLLIN OR POLLOUT OR POLLERR)\<rparr>]"
  define n2 where "n2 = (if state c' = kk_closed then n1 else m + 1)"
  have step: "fold (topup_slot env) [0..<Suc m] (conns, pfd, k, n) =
      (conns2, pfd2, k + of_nat (length (filter (opens env conns) [0..<Suc m])), n2)"
    using m l assms(2) by (simp add: f topup_slot_eq o cm c'_def conns2_def pfd2_def n2_def)
  have l2: "length conns2 = length conns" "length pfd2 = length pfd"
    using l by (simp_all add: conns2_def pfd2_def)
  have c2: "\<forall>i < length conns.
        conns2 ! i = (if i < Suc m then topup_conn env i (conns ! i) else conns ! i)"
    using c l m by (auto simp add: conns2_def c'_def nth_list_update less_Suc_eq)
  have p2: "\<forall>i < Suc m. pfd_fd (pfd2 ! i) = fd (conns2 ! i)"
    using p l m assms(2) by (auto simp add: conns2_def pfd2_def nth_list_update less_Suc_eq)
  have z2: "n2 = 0 \<longleftrightarrow> n = 0 \<and> (\<forall>i < Suc m. state (conns2 ! i) = kk_closed)"
    using z l m by (auto simp add: conns2_def n2_def nth_list_update less_Suc_eq)
  from step l2 c2 p2 z2 show ?case by blast
qed

lemma topup_result:
  assumes "length conns = MAXCONCUR"
  shows "\<exists>conns' pfd' n'.
     topup env conns k = (conns', pfd', k + of_nat (opened_in_pass env conns), n') \<and>
     length conns' = MAXCONCUR \<and> length pfd' = MAXCONCUR \<and>
     (\<forall>i < MAXCONCUR. conns' ! i = topup_conn env i (conns ! i)) \<and>
     (\<forall>i < MAXCONCUR. pfd_fd (pfd' ! i) = fd (conns' ! i)) \<and>
     (n' = 0 \<longleftrightarrow> (\<forall>i < MAXCONCUR. state (conns' ! i) = kk_closed))"
  using topup_fold [where m = MAXCONCUR and conns = conns and env = env and k = k and n = 0
      and pfd = "replicate MAXCONCUR \<lparr>pfd_fd = 0, events = 0, revents = 0\<rparr>"] assms
  by (simp add: topup_def opened_in_pass_def)

lemma topup_conn_closed_iff:
  "state (topup_conn env i c) = kk_closed \<longleftrightarrow> state c = kk_closed \<and> connect_res env i = None"
  by (auto simp add: topup_conn_def kk_connect_def split: option.splits)

lemma topup_conn_refused:
  "state c = kk_closed \<Longrightarrow> connect_res env i = None \<Longrightarrow> topup_conn env i c = c"
  by (simp add: topup_conn_def kk_connect_def)

lemma topup_conn_active:
  "state c \<noteq> kk_closed \<Longrightarrow> topup_conn env i c = c"
  by (simp add: topup_conn_def)

subsection \<open>The second loop of a pass\<close>

lemma dispatch_slot_frame:
  assumes "dispatch_slot env pfd i (Some conns) = Some conns'"
  shows "length conns' = length conns \<and> (\<forall>j. j \<noteq> i \<longrightarrow> conns' ! j = conns ! j) \<and>
         (pfd_fd (pfd ! i) = 0 \<longrightarrow> conns' = conns)"
  using assms
  by (auto simp add: dispatch_slot_def split: if_splits option.splits)

lemma dispatch_slot_None: "dispatch_slot env pfd i None = None"
  by (simp add: dispatch_slot_def)

lemma dispatch_fold:
  "fold (dispatch_slot env pfd) [0..<m] (Some conns) = Some conns' \<Longrightarrow>
   length conns' = length conns \<and>
   (\<forall>j. m \<le> j \<or> pfd_fd (pfd ! j) = 0 \<longrightarrow> conns' ! j = conns ! j)"
proof (induction m arbitrary: conns')
  case 0
  then show ?case by simp
next
  case (Suc m)
  from Suc.prems have s:
    "dispatch_slot env pfd m (fold (dispatch_slot env pfd) [0..<m] (Some conns)) = Some conns'"
    by simp
  then obtain conns1 where
    f: "fold (dispatch_slot env pfd) [0..<m] (Some conns) = Some conns1"
    by (cases "fold (dispatch_slot env pfd) [0..<m] (Some conns)")
      (simp_all add: dispatch_slot_None)
  from Suc.IH [OF f] have
    l: "length conns1 = length conns" and
    k: "\<forall>j. m \<le> j \<or> pfd_fd (pfd ! j) = 0 \<longrightarrow> conns1 ! j = conns ! j"
    by simp_all
  from s f have "dispatch_slot env pfd m (Some conns1) = Some conns'" by simp
  from dispatch_slot_frame [OF this] have
    l': "length conns' = length conns1" and
    k': "\<forall>j. j \<noteq> m \<longrightarrow> conns' ! j = conns1 ! j" and
    z: "pfd_fd (pfd ! m) = 0 \<longrightarrow> conns' = conns1"
    by simp_all
  show ?case
  proof (intro conjI allI impI)
    show "length conns' = length conns" using l l' by simp
  next
    fix j
    assume a: "Suc m \<le> j \<or> pfd_fd (pfd ! j) = 0"
    show "conns' ! j = conns ! j"
    proof (cases "j = m")
      case True
      with a have "pfd_fd (pfd ! m) = 0" by simp
      with z have "conns' = conns1" by simp
      moreover from k \<open>pfd_fd (pfd ! m) = 0\<close> have "conns1 ! m = conns ! m" by blast
      ultimately show ?thesis using True by simp
    next
      case False
      with a have "m \<le> j \<or> pfd_fd (pfd ! j) = 0" by auto
      with k have "conns1 ! j = conns ! j" by blast
      with k' False show ?thesis by simp
    qed
  qed
qed

lemma dispatch_skips_fd_zero:
  assumes "dispatch env pfd conns = Some conns'"
  shows "length conns' = length conns"
    and "pfd_fd (pfd ! i) = 0 \<Longrightarrow> conns' ! i = conns ! i"
  using dispatch_fold [of env pfd MAXCONCUR conns conns'] assms
  by (simp_all add: dispatch_def)

lemma poll_store_fd:
  "i < length pfd \<Longrightarrow> pfd_fd (poll_store rv pfd ! i) = pfd_fd (pfd ! i)"
  by (simp add: poll_store_def)

lemma kk_serve_no_events: "kk_serve 0 rd ws c = Some (c, [])"
  by (simp add: kk_serve_def)

lemma dispatch_fold_idle_from:
  assumes "\<forall>j. a \<le> j \<and> j < m \<longrightarrow> pfd_fd (pfd ! j) = 0 \<or> revents (pfd ! j) = 0"
  shows "fold (dispatch_slot env pfd) [a..<m] (Some conns) = Some conns"
  using assms
proof (induction m)
  case 0
  then show ?case by simp
next
  case (Suc m)
  show ?case
  proof (cases "a \<le> m")
    case False
    then show ?thesis by simp
  next
    case True
    from Suc have f: "fold (dispatch_slot env pfd) [a..<m] (Some conns) = Some conns"
      by simp
    from Suc.prems True have "pfd_fd (pfd ! m) = 0 \<or> revents (pfd ! m) = 0"
      by simp
    then have "dispatch_slot env pfd m (Some conns) = Some conns"
      by (auto simp add: dispatch_slot_def kk_serve_no_events)
    with f True show ?thesis by simp
  qed
qed

subsection \<open>One pass\<close>

lemma kk_pass_break_iff:
  assumes "length conns = MAXCONCUR"
  shows "(\<exists>c r. kk_pass env conns k = Break c r) \<longleftrightarrow>
         (\<forall>i < MAXCONCUR. state (fst (topup env conns k) ! i) = kk_closed)"
proof -
  from topup_result [OF assms, of env k] obtain conns1 pfd n where
    t: "topup env conns k = (conns1, pfd, k + of_nat (opened_in_pass env conns), n)" and
    z: "n = 0 \<longleftrightarrow> (\<forall>i < MAXCONCUR. state (conns1 ! i) = kk_closed)"
    by blast
  have "(\<exists>c r. kk_pass env conns k = Break c r) \<longleftrightarrow> n = 0"
    by (auto simp add: kk_pass_def t Let_def split: poll_result.splits option.splits)
  with z t show ?thesis by simp
qed

lemma kk_pass_break:
  assumes "length conns = MAXCONCUR" and "kk_pass env conns k = Break c r"
  shows "r = k + of_nat (opened_in_pass env conns) \<and> length c = MAXCONCUR \<and>
         (\<forall>i < MAXCONCUR. state (c ! i) = kk_closed)"
proof -
  from topup_result [OF assms(1), of env k] obtain conns1 pfd n where
    t: "topup env conns k = (conns1, pfd, k + of_nat (opened_in_pass env conns), n)" and
    l: "length conns1 = MAXCONCUR" and
    z: "n = 0 \<longleftrightarrow> (\<forall>i < MAXCONCUR. state (conns1 ! i) = kk_closed)"
    by blast
  from assms(2) have "n = 0 \<and> c = conns1 \<and> r = k + of_nat (opened_in_pass env conns)"
    by (auto simp add: kk_pass_def t Let_def split: if_splits poll_result.splits option.splits)
  with l z show ?thesis by simp
qed

lemma kk_pass_continue:
  assumes "length conns = MAXCONCUR" and "kk_pass env conns k = Continue c k1"
  shows "k1 = k + of_nat (opened_in_pass env conns) \<and> length c = MAXCONCUR \<and>
         (\<forall>i < MAXCONCUR. fd (topup_conn env i (conns ! i)) = 0 \<longrightarrow>
            c ! i = topup_conn env i (conns ! i))"
proof -
  from topup_result [OF assms(1), of env k] obtain conns1 pfd n where
    t: "topup env conns k = (conns1, pfd, k + of_nat (opened_in_pass env conns), n)" and
    l: "length conns1 = MAXCONCUR" "length pfd = MAXCONCUR" and
    c1: "\<forall>i < MAXCONCUR. conns1 ! i = topup_conn env i (conns ! i)" and
    p: "\<forall>i < MAXCONCUR. pfd_fd (pfd ! i) = fd (conns1 ! i)"
    by blast
  from assms(2) have k1: "k1 = k + of_nat (opened_in_pass env conns)"
    by (auto simp add: kk_pass_def t Let_def split: if_splits poll_result.splits option.splits)
  from assms(2) consider "c = conns1"
    | rv where "poll_res env = PollRet rv" "dispatch env (poll_store rv pfd) conns1 = Some c"
    by (auto simp add: kk_pass_def t Let_def split: if_splits poll_result.splits option.splits)
  then have "length c = MAXCONCUR \<and>
      (\<forall>i < MAXCONCUR. fd (conns1 ! i) = 0 \<longrightarrow> c ! i = conns1 ! i)"
  proof cases
    case 1
    with l show ?thesis by simp
  next
    case 2
    have "\<forall>i < MAXCONCUR. fd (conns1 ! i) = 0 \<longrightarrow> c ! i = conns1 ! i"
    proof (intro allI impI)
      fix i
      assume i: "i < MAXCONCUR" and "fd (conns1 ! i) = 0"
      with p l have "pfd_fd (poll_store rv pfd ! i) = 0"
        by (simp add: poll_store_fd)
      then show "c ! i = conns1 ! i"
        by (rule dispatch_skips_fd_zero(2) [OF 2(2)])
    qed
    with dispatch_skips_fd_zero(1) [OF 2(2)] l show ?thesis by simp
  qed
  with k1 c1 show ?thesis by simp
qed

lemma kk_pass_refused:
  assumes "length conns = MAXCONCUR"
    and "\<forall>i < MAXCONCUR. state (conns ! i) = kk_closed \<and> connect_res env i = None"
  shows "kk_pass env conns k = Break conns k"
proof -
  from topup_result [OF assms(1), of env k] obtain conns1 pfd n where
    t: "topup env conns k = (conns1, pfd, k + of_nat (opened_in_pass env conns), n)" and
    l: "length conns1 = MAXCONCUR" and
    c1: "\<forall>i < MAXCONCUR. conns1 ! i = topup_conn env i (conns ! i)" and
    z: "n = 0 \<longleftrightarrow> (\<forall>i < MAXCONCUR. state (conns1 ! i) = kk_closed)"
    by blast
  have same: "\<forall>i < MAXCONCUR. conns1 ! i = conns ! i"
    using c1 assms(2) by (simp add: topup_conn_refused)
  then have eq: "conns1 = conns"
    using l assms(1) by (intro nth_equalityI) simp_all
  have "filter (opens env conns) [0..<MAXCONCUR] = []"
    using assms(2) by (simp add: filter_empty_conv opens_def)
  then have o: "opened_in_pass env conns = 0"
    by (simp add: opened_in_pass_def)
  have "n = 0" using z same assms(2) by simp
  then show ?thesis by (simp add: kk_pass_def t eq o)
qed

subsection \<open>The loop and its return value\<close>

lemma kk_pass_break_table:
  assumes "length conns = MAXCONCUR" and "kk_pass env conns k = Break c r"
  shows "c = fst (topup env conns k)"
proof -
  from topup_result [OF assms(1), of env k] obtain conns1 pfd n where
    t: "topup env conns k = (conns1, pfd, k + of_nat (opened_in_pass env conns), n)"
    by blast
  from assms(2) have "c = conns1"
    by (auto simp add: kk_pass_def t Let_def split: if_splits poll_result.splits option.splits)
  with t show ?thesis by simp
qed

lemma kk_pass_break_intro:
  assumes "length conns = MAXCONCUR"
    and "\<forall>i < MAXCONCUR. state (fst (topup env conns k) ! i) = kk_closed"
  shows "kk_pass env conns k =
     Break (fst (topup env conns k)) (k + of_nat (opened_in_pass env conns))"
proof -
  from kk_pass_break_iff [OF assms(1), of env k] assms(2) obtain c r where
    b: "kk_pass env conns k = Break c r" by blast
  from kk_pass_break [OF assms(1) b] kk_pass_break_table [OF assms(1) b] b
  show ?thesis by simp
qed

lemma topup_refused:
  assumes "length conns = MAXCONCUR"
    and "\<forall>i < MAXCONCUR. state (conns ! i) = kk_closed \<and> connect_res env i = None"
  shows "fst (topup env conns k) = conns"
  using kk_pass_break_table [OF assms(1) kk_pass_refused [OF assms, of k]] by simp

text \<open>
  The loop returns exactly when some pass finds no slot active after its first loop, all
  the passes before it having gone on to the next pass; it then returns the table that
  this first loop left, and the counter, which has grown by the number of connections
  opened.
\<close>

lemma kexkill_loop_returns_iff:
  assumes "length conns = MAXCONCUR"
  shows "kexkill_loop envs conns k = Some (Returned r c) \<longleftrightarrow>
     (\<exists>j < length envs. \<exists>cj kj.
        kexkill_passes (take j envs) conns k = Some (cj, kj) \<and>
        (\<forall>i < MAXCONCUR. state (fst (topup (envs ! j) cj kj) ! i) = kk_closed) \<and>
        c = fst (topup (envs ! j) cj kj) \<and>
        r = k + of_nat (opened_total envs conns k))"
  using assms
proof (induction envs arbitrary: conns k)
  case Nil
  then show ?case by simp
next
  case (Cons env envs)
  note len = Cons.prems
  show ?case
  proof (cases "kk_pass env conns k")
    case (Break c1 k1)
    from kk_pass_break [OF len Break] kk_pass_break_table [OF len Break] have
      k1: "k1 = k + of_nat (opened_in_pass env conns)" and
      c1: "c1 = fst (topup env conns k)" and
      cl: "\<forall>i < MAXCONCUR. state (fst (topup env conns k) ! i) = kk_closed"
      by simp_all
    have tot: "opened_total (env # envs) conns k = opened_in_pass env conns"
      using Break by simp
    show ?thesis
    proof
      assume "kexkill_loop (env # envs) conns k = Some (Returned r c)"
      with Break have "r = k1" "c = c1" by simp_all
      with k1 c1 cl tot have
        "kexkill_passes (take 0 (env # envs)) conns k = Some (conns, k) \<and>
         (\<forall>i < MAXCONCUR. state (fst (topup ((env # envs) ! 0) conns k) ! i) = kk_closed) \<and>
         c = fst (topup ((env # envs) ! 0) conns k) \<and>
         r = k + of_nat (opened_total (env # envs) conns k)"
        by simp
      then show "\<exists>j < length (env # envs). \<exists>cj kj.
          kexkill_passes (take j (env # envs)) conns k = Some (cj, kj) \<and>
          (\<forall>i < MAXCONCUR. state (fst (topup ((env # envs) ! j) cj kj) ! i) = kk_closed) \<and>
          c = fst (topup ((env # envs) ! j) cj kj) \<and>
          r = k + of_nat (opened_total (env # envs) conns k)"
        by (intro exI [of _ 0] exI [of _ conns] exI [of _ k]) simp
    next
      assume "\<exists>j < length (env # envs). \<exists>cj kj.
          kexkill_passes (take j (env # envs)) conns k = Some (cj, kj) \<and>
          (\<forall>i < MAXCONCUR. state (fst (topup ((env # envs) ! j) cj kj) ! i) = kk_closed) \<and>
          c = fst (topup ((env # envs) ! j) cj kj) \<and>
          r = k + of_nat (opened_total (env # envs) conns k)"
      then obtain j cj kj where
        p: "kexkill_passes (take j (env # envs)) conns k = Some (cj, kj)" and
        c: "c = fst (topup ((env # envs) ! j) cj kj)" and
        r: "r = k + of_nat (opened_total (env # envs) conns k)"
        by blast
      have j0: "j = 0"
      proof (cases j)
        case 0
        then show ?thesis .
      next
        case (Suc j')
        with p Break show ?thesis by simp
      qed
      with p have "cj = conns" "kj = k" by simp_all
      with c r j0 tot k1 c1 Break show "kexkill_loop (env # envs) conns k = Some (Returned r c)"
        by simp
    qed
  next
    case (Exit s)
    have "\<not> (\<exists>j < length (env # envs). \<exists>cj kj.
          kexkill_passes (take j (env # envs)) conns k = Some (cj, kj) \<and>
          (\<forall>i < MAXCONCUR. state (fst (topup ((env # envs) ! j) cj kj) ! i) = kk_closed) \<and>
          c = fst (topup ((env # envs) ! j) cj kj) \<and>
          r = k + of_nat (opened_total (env # envs) conns k))"
    proof
      assume "\<exists>j < length (env # envs). \<exists>cj kj.
          kexkill_passes (take j (env # envs)) conns k = Some (cj, kj) \<and>
          (\<forall>i < MAXCONCUR. state (fst (topup ((env # envs) ! j) cj kj) ! i) = kk_closed) \<and>
          c = fst (topup ((env # envs) ! j) cj kj) \<and>
          r = k + of_nat (opened_total (env # envs) conns k)"
      then obtain j cj kj where
        p: "kexkill_passes (take j (env # envs)) conns k = Some (cj, kj)" and
        cl: "\<forall>i < MAXCONCUR. state (fst (topup ((env # envs) ! j) cj kj) ! i) = kk_closed"
        by blast
      show False
      proof (cases j)
        case 0
        with p cl have "\<forall>i < MAXCONCUR. state (fst (topup env conns k) ! i) = kk_closed"
          by simp
        from kk_pass_break_intro [OF len this] Exit show False by simp
      next
        case (Suc j')
        with p Exit show False by simp
      qed
    qed
    with Exit show ?thesis by simp
  next
    case Stuck
    have "\<not> (\<exists>j < length (env # envs). \<exists>cj kj.
          kexkill_passes (take j (env # envs)) conns k = Some (cj, kj) \<and>
          (\<forall>i < MAXCONCUR. state (fst (topup ((env # envs) ! j) cj kj) ! i) = kk_closed) \<and>
          c = fst (topup ((env # envs) ! j) cj kj) \<and>
          r = k + of_nat (opened_total (env # envs) conns k))"
    proof
      assume "\<exists>j < length (env # envs). \<exists>cj kj.
          kexkill_passes (take j (env # envs)) conns k = Some (cj, kj) \<and>
          (\<forall>i < MAXCONCUR. state (fst (topup ((env # envs) ! j) cj kj) ! i) = kk_closed) \<and>
          c = fst (topup ((env # envs) ! j) cj kj) \<and>
          r = k + of_nat (opened_total (env # envs) conns k)"
      then obtain j cj kj where
        p: "kexkill_passes (take j (env # envs)) conns k = Some (cj, kj)" and
        cl: "\<forall>i < MAXCONCUR. state (fst (topup ((env # envs) ! j) cj kj) ! i) = kk_closed"
        by blast
      show False
      proof (cases j)
        case 0
        with p cl have "\<forall>i < MAXCONCUR. state (fst (topup env conns k) ! i) = kk_closed"
          by simp
        from kk_pass_break_intro [OF len this] Stuck show False by simp
      next
        case (Suc j')
        with p Stuck show False by simp
      qed
    qed
    with Stuck show ?thesis by simp
  next
    case (Continue c1 k1)
    from kk_pass_continue [OF len Continue] have
      k1: "k1 = k + of_nat (opened_in_pass env conns)" and l1: "length c1 = MAXCONCUR"
      by simp_all
    have tot: "opened_total (env # envs) conns k =
        opened_in_pass env conns + opened_total envs c1 k1"
      using Continue by simp
    have rk: "k + of_nat (opened_total (env # envs) conns k) =
        k1 + of_nat (opened_total envs c1 k1)"
      unfolding tot by (simp add: k1)
    have active: "\<not> (\<forall>i < MAXCONCUR. state (fst (topup env conns k) ! i) = kk_closed)"
    proof
      assume "\<forall>i < MAXCONCUR. state (fst (topup env conns k) ! i) = kk_closed"
      from kk_pass_break_intro [OF len this] Continue show False by simp
    qed
    note IH = Cons.IH [OF l1, of k1]
    show ?thesis
    proof
      assume "kexkill_loop (env # envs) conns k = Some (Returned r c)"
      with Continue have "kexkill_loop envs c1 k1 = Some (Returned r c)" by simp
      with IH obtain j cj kj where
        j: "j < length envs" and
        p: "kexkill_passes (take j envs) c1 k1 = Some (cj, kj)" and
        cl: "\<forall>i < MAXCONCUR. state (fst (topup (envs ! j) cj kj) ! i) = kk_closed" and
        c: "c = fst (topup (envs ! j) cj kj)" and
        r: "r = k1 + of_nat (opened_total envs c1 k1)"
        by blast
      from j p cl c r rk Continue have
        "Suc j < length (env # envs) \<and>
         kexkill_passes (take (Suc j) (env # envs)) conns k = Some (cj, kj) \<and>
         (\<forall>i < MAXCONCUR. state (fst (topup ((env # envs) ! Suc j) cj kj) ! i) = kk_closed) \<and>
         c = fst (topup ((env # envs) ! Suc j) cj kj) \<and>
         r = k + of_nat (opened_total (env # envs) conns k)"
        by simp
      then show "\<exists>j < length (env # envs). \<exists>cj kj.
          kexkill_passes (take j (env # envs)) conns k = Some (cj, kj) \<and>
          (\<forall>i < MAXCONCUR. state (fst (topup ((env # envs) ! j) cj kj) ! i) = kk_closed) \<and>
          c = fst (topup ((env # envs) ! j) cj kj) \<and>
          r = k + of_nat (opened_total (env # envs) conns k)"
        by blast
    next
      assume "\<exists>j < length (env # envs). \<exists>cj kj.
          kexkill_passes (take j (env # envs)) conns k = Some (cj, kj) \<and>
          (\<forall>i < MAXCONCUR. state (fst (topup ((env # envs) ! j) cj kj) ! i) = kk_closed) \<and>
          c = fst (topup ((env # envs) ! j) cj kj) \<and>
          r = k + of_nat (opened_total (env # envs) conns k)"
      then obtain j cj kj where
        j: "j < length (env # envs)" and
        p: "kexkill_passes (take j (env # envs)) conns k = Some (cj, kj)" and
        cl: "\<forall>i < MAXCONCUR. state (fst (topup ((env # envs) ! j) cj kj) ! i) = kk_closed" and
        c: "c = fst (topup ((env # envs) ! j) cj kj)" and
        r: "r = k + of_nat (opened_total (env # envs) conns k)"
        by blast
      show "kexkill_loop (env # envs) conns k = Some (Returned r c)"
      proof (cases j)
        case 0
        with p cl active show ?thesis by simp
      next
        case (Suc j')
        with j p cl c r rk Continue have
          "j' < length envs \<and>
           kexkill_passes (take j' envs) c1 k1 = Some (cj, kj) \<and>
           (\<forall>i < MAXCONCUR. state (fst (topup (envs ! j') cj kj) ! i) = kk_closed) \<and>
           c = fst (topup (envs ! j') cj kj) \<and>
           r = k1 + of_nat (opened_total envs c1 k1)"
          by simp
        then have "kexkill_loop envs c1 k1 = Some (Returned r c)"
          using IH by blast
        with Continue show ?thesis by simp
      qed
    qed
  qed
qed

lemma kexkill_loop_returned:
  assumes "length conns = MAXCONCUR"
    and "kexkill_loop envs conns k = Some (Returned r c)"
  shows "r = k + of_nat (opened_total envs conns k) \<and>
         (\<forall>i < MAXCONCUR. state (c ! i) = kk_closed)"
  using kexkill_loop_returns_iff [OF assms(1), of envs k r c] assms(2) by auto

lemma sint_of_nat32:
  assumes "n < 2 ^ 31"
  shows "sint (of_nat n :: 32 word) = int n"
proof -
  have "unat (of_nat n :: 32 word) = n"
    using assms by (simp add: unat_of_nat take_bit_nat_eq_self)
  then have u: "uint (of_nat n :: 32 word) = int n"
    by (simp add: uint_nat)
  with assms have "sint (of_nat n :: 32 word) = uint (of_nat n :: 32 word)"
    by (intro sint32_small) simp
  with u show ?thesis by simp
qed

text \<open>The loop ends the process exactly when one of its passes does.\<close>

lemma kexkill_loop_exits_iff:
  "kexkill_loop envs conns k = Some (Exited s) \<longleftrightarrow>
     (\<exists>j < length envs. \<exists>cj kj.
        kexkill_passes (take j envs) conns k = Some (cj, kj) \<and>
        kk_pass (envs ! j) cj kj = Exit s)"
proof (induction envs arbitrary: conns k)
  case Nil
  then show ?case by simp
next
  case (Cons env envs)
  show ?case
  proof
    assume a: "kexkill_loop (env # envs) conns k = Some (Exited s)"
    show "\<exists>j < length (env # envs). \<exists>cj kj.
        kexkill_passes (take j (env # envs)) conns k = Some (cj, kj) \<and>
        kk_pass ((env # envs) ! j) cj kj = Exit s"
    proof (cases "kk_pass env conns k")
      case (Break c1 k1)
      with a show ?thesis by simp
    next
      case (Exit s')
      with a have "s' = s" by simp
      with Exit have
        "kexkill_passes (take 0 (env # envs)) conns k = Some (conns, k) \<and>
         kk_pass ((env # envs) ! 0) conns k = Exit s"
        by simp
      then show ?thesis
        by (intro exI [of _ 0] exI [of _ conns] exI [of _ k]) simp
    next
      case Stuck
      with a show ?thesis by simp
    next
      case (Continue c1 k1)
      with a have "kexkill_loop envs c1 k1 = Some (Exited s)" by simp
      with Cons.IH [of c1 k1] obtain j cj kj where
        "j < length envs" "kexkill_passes (take j envs) c1 k1 = Some (cj, kj)"
        "kk_pass (envs ! j) cj kj = Exit s"
        by blast
      with Continue have
        "Suc j < length (env # envs) \<and>
         kexkill_passes (take (Suc j) (env # envs)) conns k = Some (cj, kj) \<and>
         kk_pass ((env # envs) ! Suc j) cj kj = Exit s"
        by simp
      then show ?thesis by blast
    qed
  next
    assume "\<exists>j < length (env # envs). \<exists>cj kj.
        kexkill_passes (take j (env # envs)) conns k = Some (cj, kj) \<and>
        kk_pass ((env # envs) ! j) cj kj = Exit s"
    then obtain j cj kj where
      j: "j < length (env # envs)" and
      p: "kexkill_passes (take j (env # envs)) conns k = Some (cj, kj)" and
      e: "kk_pass ((env # envs) ! j) cj kj = Exit s"
      by blast
    show "kexkill_loop (env # envs) conns k = Some (Exited s)"
    proof (cases j)
      case 0
      with p e show ?thesis by simp
    next
      case (Suc j')
      with p obtain c1 k1 where
        c: "kk_pass env conns k = Continue c1 k1" and
        p': "kexkill_passes (take j' envs) c1 k1 = Some (cj, kj)"
        by (auto split: pass_result.splits)
      from Suc j e have "j' < length envs" "kk_pass (envs ! j') cj kj = Exit s"
        by simp_all
      with p' Cons.IH [of c1 k1] have "kexkill_loop envs c1 k1 = Some (Exited s)"
        by blast
      with c show ?thesis by simp
    qed
  qed
qed

subsection \<open>Three runs from the table of main\<close>

lemma conns_init_closed:
  "length conns_init = MAXCONCUR"
  "i < MAXCONCUR \<Longrightarrow> state (conns_init ! i) = kk_closed"
  "i < MAXCONCUR \<Longrightarrow> fd (conns_init ! i) = -1"
  by (simp_all add: conns_init_def)

lemma conns_init_refused:
  "\<forall>i < MAXCONCUR. state (conns_init ! i) = kk_closed \<and> connect_res refuse_env i = None"
  by (simp add: conns_init_closed refuse_env_def)

lemma opened_refused:
  assumes "\<forall>i < MAXCONCUR. state (conns ! i) = kk_closed \<and> connect_res env i = None"
  shows "opened_in_pass env conns = 0"
proof -
  have "filter (opens env conns) [0..<MAXCONCUR] = []"
    using assms by (simp add: filter_empty_conv opens_def)
  then show ?thesis by (simp add: opened_in_pass_def)
qed

lemma upt_MAXCONCUR: "[0..<MAXCONCUR] = 0 # [Suc 0..<MAXCONCUR]"
  by (simp add: upt_conv_Cons MAXCONCUR_def)

text \<open>
  What the first loop of a pass leaves when it opens slot 0 of the table of \<^verbatim>\<open>main\<close> on
  descriptor 3 and is refused for every other slot.
\<close>

lemma topup_opens_slot_0:
  assumes "connect_res env = (\<lambda>i. if i = 0 then Some 3 else None)"
  shows "\<exists>pfd n. topup env conns_init k = (conns_init[0 := fresh_conn], pfd, k + 1, n) \<and>
     length pfd = MAXCONCUR \<and> n \<noteq> 0 \<and>
     (\<forall>i < MAXCONCUR. pfd_fd (pfd ! i) = fd (conns_init[0 := fresh_conn] ! i))"
proof -
  have l: "length conns_init = MAXCONCUR" by (rule conns_init_closed)
  have pos: "0 < MAXCONCUR" by (simp add: MAXCONCUR_def)
  from topup_result [OF l, of env k] obtain conns1 pfd n where
    t: "topup env conns_init k = (conns1, pfd, k + of_nat (opened_in_pass env conns_init), n)" and
    l1: "length conns1 = MAXCONCUR" "length pfd = MAXCONCUR" and
    c1: "\<forall>i < MAXCONCUR. conns1 ! i = topup_conn env i (conns_init ! i)" and
    p: "\<forall>i < MAXCONCUR. pfd_fd (pfd ! i) = fd (conns1 ! i)" and
    z: "n = 0 \<longleftrightarrow> (\<forall>i < MAXCONCUR. state (conns1 ! i) = kk_closed)"
    by blast
  have c0: "topup_conn env 0 (conns_init ! 0) = fresh_conn"
    using pos fresh_conn_reached
    by (simp add: topup_conn_def assms conns_init_closed)
  have ci: "topup_conn env i (conns_init ! i) = conns_init ! i" if "0 < i" "i < MAXCONCUR" for i
    using that by (intro topup_conn_refused) (simp_all add: conns_init_closed assms)
  have eq: "conns1 = conns_init[0 := fresh_conn]"
  proof (rule nth_equalityI)
    show "length conns1 = length (conns_init[0 := fresh_conn])"
      using l l1 by simp
  next
    fix i
    assume "i < length conns1"
    with l1 have i: "i < MAXCONCUR" by simp
    show "conns1 ! i = conns_init[0 := fresh_conn] ! i"
    proof (cases "i = 0")
      case True
      with c1 c0 pos l show ?thesis by simp
    next
      case False
      with c1 ci [of i] i show ?thesis by simp
    qed
  qed
  have "filter (opens env conns_init) [Suc 0..<MAXCONCUR] = []"
    by (simp add: filter_empty_conv opens_def assms)
  moreover have "opens env conns_init 0"
    using pos by (simp add: opens_def assms conns_init_closed)
  ultimately have o: "opened_in_pass env conns_init = 1"
    by (simp add: opened_in_pass_def upt_MAXCONCUR)
  have "state (conns1 ! 0) \<noteq> kk_closed"
    using pos l by (simp add: eq fresh_conn_def)
  with z pos have n: "n \<noteq> 0" by blast
  from t l1 p n show ?thesis by (simp add: eq o)
qed

lemma opened_hangup: "opened_in_pass hangup_env conns_init = 1"
proof -
  have pos: "0 < MAXCONCUR" by (simp add: MAXCONCUR_def)
  have "filter (opens hangup_env conns_init) [Suc 0..<MAXCONCUR] = []"
    by (simp add: filter_empty_conv opens_def hangup_env_def)
  moreover have "opens hangup_env conns_init 0"
    using pos by (simp add: opens_def hangup_env_def conns_init_closed)
  ultimately show ?thesis
    by (simp add: opened_in_pass_def upt_MAXCONCUR)
qed

lemma hangup_pass: "kk_pass hangup_env conns_init k = Continue conns_init (k + 1)"
proof -
  have l: "length conns_init = MAXCONCUR" by (rule conns_init_closed)
  have pos: "0 < MAXCONCUR" by (simp add: MAXCONCUR_def)
  define conns1 where "conns1 = conns_init[0 := fresh_conn]"
  have "connect_res hangup_env = (\<lambda>i. if i = 0 then Some 3 else None)"
    by (simp add: hangup_env_def)
  from topup_opens_slot_0 [OF this, of k] obtain pfd n where
    t: "topup hangup_env conns_init k = (conns1, pfd, k + 1, n)" and
    lp: "length pfd = MAXCONCUR" and n: "n \<noteq> 0" and
    p: "\<forall>i < MAXCONCUR. pfd_fd (pfd ! i) = fd (conns1 ! i)"
    unfolding conns1_def by blast
  define pfd1 where "pfd1 = poll_store (\<lambda>i. POLLHUP) pfd"
  have fd1: "pfd_fd (pfd1 ! i) = fd (conns1 ! i)" if "i < MAXCONCUR" for i
    using that p lp by (simp add: pfd1_def poll_store_fd)
  have rv: "revents (pfd1 ! i) = (if fd (conns1 ! i) < 0 then 0 else POLLHUP)"
    if "i < MAXCONCUR" for i
    using that p lp by (simp add: pfd1_def poll_store_def)
  have c0: "conns1 ! 0 = fresh_conn"
    using pos l by (simp add: conns1_def)
  have f0: "pfd_fd (pfd1 ! 0) = 3" "revents (pfd1 ! 0) = POLLHUP"
    using fd1 [OF pos] rv [OF pos] by (simp_all add: c0 fresh_conn_def)
  have restored: "conns1[0 := kk_close fresh_conn] = conns_init"
  proof (rule nth_equalityI)
    show "length (conns1[0 := kk_close fresh_conn]) = length conns_init"
      by (simp add: conns1_def)
  next
    fix i
    assume "i < length (conns1[0 := kk_close fresh_conn])"
    then have i: "i < MAXCONCUR" by (simp add: conns1_def l)
    show "conns1[0 := kk_close fresh_conn] ! i = conns_init ! i"
    proof (cases "i = 0")
      case True
      with pos show ?thesis
        by (simp add: conns1_def conns_init_def kk_close_def)
    next
      case False
      then show ?thesis by (simp add: conns1_def)
    qed
  qed
  have "kk_serve POLLHUP (read_res hangup_env 0) (write_res hangup_env 0) fresh_conn =
      Some (kk_close fresh_conn, [])"
    by (simp add: kk_serve_def POLLERR_def POLLHUP_def)
  then have s0: "dispatch_slot hangup_env pfd1 0 (Some conns1) = Some conns_init"
    by (simp add: dispatch_slot_def f0 c0 restored)
  have idle: "\<forall>j. Suc 0 \<le> j \<and> j < MAXCONCUR \<longrightarrow>
      pfd_fd (pfd1 ! j) = 0 \<or> revents (pfd1 ! j) = 0"
  proof (intro allI impI)
    fix j
    assume j: "Suc 0 \<le> j \<and> j < MAXCONCUR"
    then have "fd (conns1 ! j) = -1"
      by (simp add: conns1_def conns_init_closed)
    with rv [of j] j show "pfd_fd (pfd1 ! j) = 0 \<or> revents (pfd1 ! j) = 0"
      by simp
  qed
  have d: "dispatch hangup_env pfd1 conns1 = Some conns_init"
    unfolding dispatch_def upt_MAXCONCUR
    using dispatch_fold_idle_from [OF idle, of hangup_env conns_init]
    by (simp add: s0)
  have "revents (pfd1 ! 0) \<noteq> 0"
    by (simp add: f0 POLLHUP_def)
  moreover have "pfd1 ! 0 \<in> set pfd1"
    using pos lp by (intro nth_mem) (simp add: pfd1_def poll_store_def)
  ultimately have "filter (\<lambda>p. revents p \<noteq> 0) pfd1 \<noteq> []"
    by (auto simp add: filter_empty_conv)
  then have cnt: "\<not> poll_count pfd1 \<le> 0"
    by (simp add: poll_count_def)
  have pr: "poll_res hangup_env = PollRet (\<lambda>i. POLLHUP)"
    by (simp add: hangup_env_def)
  show ?thesis
    using n cnt d
    by (simp add: kk_pass_def t pr pfd1_def [symmetric] Let_def)
qed

lemma abort_pass: "kk_pass abort_env conns_init k = Exit 1"
proof -
  have "connect_res abort_env = (\<lambda>i. if i = 0 then Some 3 else None)"
    by (simp add: abort_env_def)
  from topup_opens_slot_0 [OF this, of k] obtain pfd n where
    t: "topup abort_env conns_init k = (conns_init[0 := fresh_conn], pfd, k + 1, n)" and
    n: "n \<noteq> 0"
    by blast
  have pr: "poll_res abort_env = PollErr False"
    by (simp add: abort_env_def)
  show ?thesis
    using n by (simp add: kk_pass_def t pr)
qed

text \<open>
  C8. The loop returns exactly when one of its passes finds no slot active after its
  first loop, the one that opens connections, every pass before it having gone on to the
  next; in particular a pass leaves the loop (\<^verbatim>\<open>break\<close>) exactly when no slot is active
  after its first loop. The only other way out of the loop is \<^verbatim>\<open>err(1, "poll()")\<close>,
  which ends the process and returns nothing. The value returned is the number of
  connections opened during the run (as a 32-bit \<^verbatim>\<open>int\<close>: the number itself while it is
  below \<open>2 ^ 31\<close>), and the table then has every slot closed. Against an endpoint that
  refuses every attempt, with every slot closed, the loop returns 0 in its first pass
  and leaves the table as it was. \<^verbatim>\<open>main\<close> stops with status 0 at the first address for
  which the loop returns a positive count, goes on to the next address when it returns
  0, exits with status 0 when no address is left, and exits with the status of \<^verbatim>\<open>err\<close>
  when the loop ends the process.
\<close>

theorem kexkill_returns_open_count:
  assumes "length conns = MAXCONCUR"
  shows "((\<exists>c r. kk_pass env conns k = Break c r) \<longleftrightarrow>
            (\<forall>i < MAXCONCUR. state (fst (topup env conns k) ! i) = kk_closed)) \<and>
         (kexkill envs conns = Some (Returned r c) \<longleftrightarrow>
            (\<exists>j < length envs. \<exists>cj kj.
               kexkill_passes (take j envs) conns 0 = Some (cj, kj) \<and>
               (\<forall>i < MAXCONCUR. state (fst (topup (envs ! j) cj kj) ! i) = kk_closed) \<and>
               c = fst (topup (envs ! j) cj kj) \<and>
               r = of_nat (opened_total envs conns 0))) \<and>
         (kexkill envs conns = Some (Exited s) \<longleftrightarrow>
            (\<exists>j < length envs. \<exists>cj kj.
               kexkill_passes (take j envs) conns 0 = Some (cj, kj) \<and>
               kk_pass (envs ! j) cj kj = Exit s)) \<and>
         (kexkill envs conns = Some (Returned r c) \<longrightarrow>
            r = of_nat (opened_total envs conns 0) \<and>
            (opened_total envs conns 0 < 2 ^ 31 \<longrightarrow> sint r = int (opened_total envs conns 0)) \<and>
            (\<forall>i < MAXCONCUR. state (c ! i) = kk_closed)) \<and>
         ((\<forall>i < MAXCONCUR. state (conns ! i) = kk_closed \<and> connect_res env i = None) \<longrightarrow>
            kexkill (env # envs) conns = Some (Returned 0 conns) \<and>
            main_loop ((env # envs) # rest) conns = main_loop rest conns \<and>
            main_loop [env # envs] conns = Some 0) \<and>
         (kexkill envs conns = Some (Returned r c) \<longrightarrow>
            main_loop (envs # rest) conns = (if 0 < sint r then Some 0 else main_loop rest c)) \<and>
         (kexkill envs conns = Some (Exited s) \<longrightarrow> main_loop (envs # rest) conns = Some s) \<and>
         (kexkill envs conns = None \<longrightarrow> main_loop (envs # rest) conns = None) \<and>
         main_loop [] conns = Some 0"
proof (intro conjI impI)
  show "(\<exists>c r. kk_pass env conns k = Break c r) \<longleftrightarrow>
      (\<forall>i < MAXCONCUR. state (fst (topup env conns k) ! i) = kk_closed)"
    using assms by (rule kk_pass_break_iff)
next
  show "kexkill envs conns = Some (Returned r c) \<longleftrightarrow>
      (\<exists>j < length envs. \<exists>cj kj.
         kexkill_passes (take j envs) conns 0 = Some (cj, kj) \<and>
         (\<forall>i < MAXCONCUR. state (fst (topup (envs ! j) cj kj) ! i) = kk_closed) \<and>
         c = fst (topup (envs ! j) cj kj) \<and>
         r = of_nat (opened_total envs conns 0))"
    using kexkill_loop_returns_iff [OF assms, of envs 0 r c] by (simp add: kexkill_def)
next
  show "kexkill envs conns = Some (Exited s) \<longleftrightarrow>
      (\<exists>j < length envs. \<exists>cj kj.
         kexkill_passes (take j envs) conns 0 = Some (cj, kj) \<and>
         kk_pass (envs ! j) cj kj = Exit s)"
    using kexkill_loop_exits_iff [of envs conns 0 s] by (simp add: kexkill_def)
next
  assume ret: "kexkill envs conns = Some (Returned r c)"
  then have "kexkill_loop envs conns 0 = Some (Returned r c)"
    by (simp add: kexkill_def)
  from kexkill_loop_returned [OF assms this]
  show r: "r = of_nat (opened_total envs conns 0)"
    and "\<forall>i < MAXCONCUR. state (c ! i) = kk_closed"
    by simp_all
  assume "opened_total envs conns 0 < 2 ^ 31"
  then show "sint r = int (opened_total envs conns 0)"
    unfolding r by (rule sint_of_nat32)
next
  assume ref: "\<forall>i < MAXCONCUR. state (conns ! i) = kk_closed \<and> connect_res env i = None"
  from kk_pass_refused [OF assms ref, of 0]
  show k: "kexkill (env # envs) conns = Some (Returned 0 conns)"
    by (simp add: kexkill_def)
  then show "main_loop ((env # envs) # rest) conns = main_loop rest conns"
    by simp
  from k show "main_loop [env # envs] conns = Some 0"
    by simp
next
  assume "kexkill envs conns = Some (Returned r c)"
  then show "main_loop (envs # rest) conns = (if 0 < sint r then Some 0 else main_loop rest c)"
    by simp
next
  assume "kexkill envs conns = Some (Exited s)"
  then show "main_loop (envs # rest) conns = Some s" by simp
next
  assume "kexkill envs conns = None"
  then show "main_loop (envs # rest) conns = None" by simp
next
  show "main_loop [] conns = Some 0" by simp
qed

theorem kexkill_returns_open_count_witness:
  "length conns_init = MAXCONCUR \<and>
   kexkill [refuse_env] conns_init = Some (Returned 0 conns_init) \<and>
   main_loop [[refuse_env], [refuse_env]] conns_init = Some 0 \<and>
   kexkill_passes [hangup_env] conns_init 0 = Some (conns_init, 1) \<and>
   opened_total [hangup_env, refuse_env] conns_init 0 = 1 \<and>
   kexkill [hangup_env, refuse_env] conns_init = Some (Returned 1 conns_init) \<and>
   kexkill [hangup_env] conns_init = None \<and>
   main_loop [[refuse_env], [hangup_env, refuse_env], [abort_env]] conns_init = Some 0 \<and>
   kexkill [abort_env] conns_init = Some (Exited 1) \<and>
   main_loop [[refuse_env], [abort_env]] conns_init = Some 1"
proof -
  have l: "length conns_init = MAXCONCUR" by (rule conns_init_closed)
  note ref = conns_init_refused
  note inst = kexkill_returns_open_count [OF l]
  have k0: "kexkill [refuse_env] conns_init = Some (Returned 0 conns_init)"
    using inst [of refuse_env 0 "[]" 0 conns_init 0 "[]"] ref by simp
  have m0: "main_loop ([refuse_env] # rest) conns_init = main_loop rest conns_init" for rest
    using inst [of refuse_env 0 "[]" 0 conns_init 0 rest] ref by simp
  have p1: "kexkill_passes [hangup_env] conns_init 0 = Some (conns_init, 1)"
    by (simp add: hangup_pass)
  have t1: "fst (topup refuse_env conns_init 1) = conns_init"
    using l ref by (rule topup_refused)
  have o1: "opened_total [hangup_env, refuse_env] conns_init 0 = 1"
    using kk_pass_refused [OF l ref, of 1] opened_refused [OF ref]
    by (simp add: hangup_pass opened_hangup)
  have "\<exists>j < length [hangup_env, refuse_env]. \<exists>cj kj.
      kexkill_passes (take j [hangup_env, refuse_env]) conns_init 0 = Some (cj, kj) \<and>
      (\<forall>i < MAXCONCUR.
         state (fst (topup ([hangup_env, refuse_env] ! j) cj kj) ! i) = kk_closed) \<and>
      conns_init = fst (topup ([hangup_env, refuse_env] ! j) cj kj) \<and>
      (1 :: 32 word) = of_nat (opened_total [hangup_env, refuse_env] conns_init 0)"
    using p1 t1 o1
    by (intro exI [of _ 1] exI [of _ conns_init]) (simp add: conns_init_closed)
  then have k1: "kexkill [hangup_env, refuse_env] conns_init = Some (Returned 1 conns_init)"
    using inst [of refuse_env 0 "[hangup_env, refuse_env]" 1 conns_init 0 "[]"] by blast
  have kn: "kexkill [hangup_env] conns_init = None"
    by (simp add: kexkill_def hangup_pass)
  have m1: "main_loop ([hangup_env, refuse_env] # rest) conns_init = Some 0" for rest
    using inst [of refuse_env 0 "[hangup_env, refuse_env]" 1 conns_init 0 rest] k1 by simp
  have "\<exists>j < length [abort_env]. \<exists>cj kj.
      kexkill_passes (take j [abort_env]) conns_init 0 = Some (cj, kj) \<and>
      kk_pass ([abort_env] ! j) cj kj = Exit 1"
    by (intro exI [of _ 0] exI [of _ conns_init]) (simp add: abort_pass)
  then have ka: "kexkill [abort_env] conns_init = Some (Exited 1)"
    using inst [of refuse_env 0 "[abort_env]" 0 conns_init 1 "[]"] by blast
  have ma: "main_loop ([abort_env] # rest) conns_init = Some 1" for rest
    using inst [of refuse_env 0 "[abort_env]" 0 conns_init 1 rest] ka by simp
  have me: "main_loop [] conns_init = Some 0" by simp
  from l k0 p1 o1 k1 kn ka show ?thesis
    by (simp only: m0 m1 ma me simp_thms)
qed

subsection \<open>A connection on descriptor 0\<close>

lemma topup_nth:
  assumes "length conns = MAXCONCUR" and "i < MAXCONCUR"
  shows "fst (topup env conns k) ! i = topup_conn env i (conns ! i)"
  using topup_result [OF assms(1), of env k] assms(2) by auto

lemma passes_keep_fd_zero:
  assumes "length conns = MAXCONCUR" and "i < MAXCONCUR"
    and "fd (conns ! i) = 0" and "state (conns ! i) \<noteq> kk_closed"
    and "kexkill_passes envs conns k = Some (conns', k')"
  shows "conns' ! i = conns ! i"
  using assms(1,3,4,5)
proof (induction envs arbitrary: conns k)
  case Nil
  then show ?case by simp
next
  case (Cons env envs)
  from Cons.prems(4) obtain c1 k1 where
    p: "kk_pass env conns k = Continue c1 k1" and
    r: "kexkill_passes envs c1 k1 = Some (conns', k')"
    by (auto split: pass_result.splits)
  have t: "topup_conn env i (conns ! i) = conns ! i"
    using Cons.prems(3) by (rule topup_conn_active)
  from kk_pass_continue [OF Cons.prems(1) p] assms(2) t Cons.prems(2) have
    l: "length c1 = MAXCONCUR" and s: "c1 ! i = conns ! i"
    by simp_all
  from Cons.IH [OF l _ _ r] s Cons.prems(2,3) show ?case by simp
qed

lemma loop_with_fd_zero_never_returns:
  assumes "length conns = MAXCONCUR" and "i < MAXCONCUR"
    and "fd (conns ! i) = 0" and "state (conns ! i) \<noteq> kk_closed"
  shows "kexkill_loop envs conns k \<noteq> Some (Returned r c)"
  using assms(1,3,4)
proof (induction envs arbitrary: conns k)
  case Nil
  then show ?case by simp
next
  case (Cons env envs)
  have t: "topup_conn env i (conns ! i) = conns ! i"
    using Cons.prems(3) by (rule topup_conn_active)
  show ?case
  proof (cases "kk_pass env conns k")
    case (Break c1 k1)
    then have "\<forall>j < MAXCONCUR. state (fst (topup env conns k) ! j) = kk_closed"
      using kk_pass_break_iff [OF Cons.prems(1), of env k] by blast
    with assms(2) have "state (fst (topup env conns k) ! i) = kk_closed" by simp
    with topup_nth [OF Cons.prems(1) assms(2), of env k] t Cons.prems(3)
    show ?thesis by simp
  next
    case (Exit s)
    then show ?thesis by simp
  next
    case Stuck
    then show ?thesis by simp
  next
    case (Continue c1 k1)
    from kk_pass_continue [OF Cons.prems(1) Continue] assms(2) t Cons.prems(2) have
      l: "length c1 = MAXCONCUR" and s: "c1 ! i = conns ! i"
      by simp_all
    from Cons.IH [OF l, of k1] s Cons.prems(2,3) Continue show ?thesis by simp
  qed
qed

text \<open>
  C10. The second loop of a pass leaves alone every slot whose \<^verbatim>\<open>pollfd\<close> entry has
  \<^verbatim>\<open>fd\<close> equal to 0, whatever events \<^verbatim>\<open>poll\<close> found for it. So a slot in use whose
  descriptor is 0 is the same after any number of passes: it is never read, written or
  closed, and it never leaves its stage. With such a slot in the table the loop never
  returns either, since the slot stays active.
\<close>

theorem fd_zero_slot_is_skipped:
  assumes "length conns = MAXCONCUR" and "i < MAXCONCUR"
  shows "(pfd_fd (pfd ! i) = 0 \<and> dispatch env pfd conns = Some conns1 \<longrightarrow>
            conns1 ! i = conns ! i) \<and>
         (fd (conns ! i) = 0 \<and> state (conns ! i) \<noteq> kk_closed \<longrightarrow>
            (kexkill_passes envs conns k = Some (conns2, k2) \<longrightarrow> conns2 ! i = conns ! i) \<and>
            kexkill_loop envs conns k \<noteq> Some (Returned r c))"
proof (intro conjI impI)
  assume "pfd_fd (pfd ! i) = 0 \<and> dispatch env pfd conns = Some conns1"
  then show "conns1 ! i = conns ! i"
    using dispatch_skips_fd_zero(2) [of env pfd conns conns1 i] by simp
next
  assume a: "fd (conns ! i) = 0 \<and> state (conns ! i) \<noteq> kk_closed"
  assume "kexkill_passes envs conns k = Some (conns2, k2)"
  with a show "conns2 ! i = conns ! i"
    using passes_keep_fd_zero [OF assms] by simp
next
  assume a: "fd (conns ! i) = 0 \<and> state (conns ! i) \<noteq> kk_closed"
  then show "kexkill_loop envs conns k \<noteq> Some (Returned r c)"
    using loop_with_fd_zero_never_returns [OF assms] by simp
qed

lemma dispatch_fold_idle:
  assumes "\<forall>j < m. pfd_fd (pfd ! j) = 0 \<or> revents (pfd ! j) = 0"
  shows "fold (dispatch_slot env pfd) [0..<m] (Some conns) = Some conns"
  using assms
proof (induction m)
  case 0
  then show ?case by simp
next
  case (Suc m)
  then have f: "fold (dispatch_slot env pfd) [0..<m] (Some conns) = Some conns"
    and "pfd_fd (pfd ! m) = 0 \<or> revents (pfd ! m) = 0"
    by simp_all
  then have "dispatch_slot env pfd m (Some conns) = Some conns"
    by (auto simp add: dispatch_slot_def kk_serve_no_events)
  with f show ?case by simp
qed

lemma fd0_conns_facts:
  "length fd0_conns = MAXCONCUR"
  "fd0_conns ! 0 = fd0_conn"
  "0 < i \<Longrightarrow> i < MAXCONCUR \<Longrightarrow> state (fd0_conns ! i) = kk_closed"
  "0 < i \<Longrightarrow> i < MAXCONCUR \<Longrightarrow> fd (fd0_conns ! i) = -1"
  by (simp_all add: fd0_conns_def conns_init_def MAXCONCUR_def)

lemma ready_pass_changes_nothing:
  "kk_pass ready_env fd0_conns k = Continue fd0_conns k"
proof -
  have l: "length fd0_conns = MAXCONCUR" by (rule fd0_conns_facts)
  have pos: "0 < MAXCONCUR" by (simp add: MAXCONCUR_def)
  have act: "state (fd0_conns ! 0) \<noteq> kk_closed" "fd (fd0_conns ! 0) = 0"
    by (simp_all add: fd0_conns_facts fd0_conn_def)
  have same: "topup_conn ready_env i (fd0_conns ! i) = fd0_conns ! i" if "i < MAXCONCUR" for i
  proof (cases "i = 0")
    case True
    with act show ?thesis by (simp add: topup_conn_active)
  next
    case False
    with that show ?thesis
      by (intro topup_conn_refused) (simp_all add: fd0_conns_facts ready_env_def)
  qed
  from topup_result [OF l, of ready_env k] obtain conns1 pfd n where
    t: "topup ready_env fd0_conns k =
        (conns1, pfd, k + of_nat (opened_in_pass ready_env fd0_conns), n)" and
    l1: "length conns1 = MAXCONCUR" "length pfd = MAXCONCUR" and
    c1: "\<forall>i < MAXCONCUR. conns1 ! i = topup_conn ready_env i (fd0_conns ! i)" and
    p: "\<forall>i < MAXCONCUR. pfd_fd (pfd ! i) = fd (conns1 ! i)" and
    z: "n = 0 \<longleftrightarrow> (\<forall>i < MAXCONCUR. state (conns1 ! i) = kk_closed)"
    by blast
  have eq: "conns1 = fd0_conns"
    using l l1 c1 same by (intro nth_equalityI) simp_all
  have "filter (opens ready_env fd0_conns) [0..<MAXCONCUR] = []"
    by (simp add: filter_empty_conv opens_def ready_env_def)
  then have o: "opened_in_pass ready_env fd0_conns = 0"
    by (simp add: opened_in_pass_def)
  have n: "n \<noteq> 0"
    using z pos act eq by auto
  define pfd1 where "pfd1 = poll_store (\<lambda>i. POLLIN OR POLLOUT) pfd"
  have fd1: "pfd_fd (pfd1 ! i) = fd (fd0_conns ! i)" if "i < MAXCONCUR" for i
    using that p l1 eq by (simp add: pfd1_def poll_store_fd)
  have rev: "revents (pfd1 ! i) = (if fd (fd0_conns ! i) < 0 then 0 else POLLIN OR POLLOUT)"
    if "i < MAXCONCUR" for i
    using that p l1 eq by (simp add: pfd1_def poll_store_def)
  have idle: "\<forall>j < MAXCONCUR. pfd_fd (pfd1 ! j) = 0 \<or> revents (pfd1 ! j) = 0"
  proof (intro allI impI)
    fix j
    assume j: "j < MAXCONCUR"
    show "pfd_fd (pfd1 ! j) = 0 \<or> revents (pfd1 ! j) = 0"
    proof (cases "j = 0")
      case True
      with fd1 [OF j] act show ?thesis by simp
    next
      case False
      with rev [OF j] j show ?thesis by (simp add: fd0_conns_facts)
    qed
  qed
  have d: "dispatch ready_env pfd1 fd0_conns = Some fd0_conns"
    unfolding dispatch_def using idle by (rule dispatch_fold_idle)
  have "revents (pfd1 ! 0) \<noteq> 0"
    using rev [OF pos] act by (simp add: POLLIN_def POLLOUT_def)
  moreover have "pfd1 ! 0 \<in> set pfd1"
    using pos l1 by (intro nth_mem) (simp add: pfd1_def poll_store_def)
  ultimately have "filter (\<lambda>p. revents p \<noteq> 0) pfd1 \<noteq> []"
    by (auto simp add: filter_empty_conv)
  then have cnt: "\<not> poll_count pfd1 \<le> 0"
    by (simp add: poll_count_def)
  have pr: "poll_res ready_env = PollRet (\<lambda>i. POLLIN OR POLLOUT)"
    by (simp add: ready_env_def)
  show ?thesis
    using n cnt d
    by (simp add: kk_pass_def t eq o pr pfd1_def [symmetric] Let_def)
qed

theorem fd_zero_slot_is_skipped_witness:
  "length fd0_conns = MAXCONCUR \<and> fd (fd0_conns ! 0) = 0 \<and>
   state (fd0_conns ! 0) = kk_connected \<and>
   kexkill_passes [ready_env, ready_env, ready_env] fd0_conns 0 = Some (fd0_conns, 0) \<and>
   (\<forall>r c. kexkill_loop [ready_env, ready_env, ready_env] fd0_conns 0 \<noteq> Some (Returned r c))"
proof -
  have l: "length fd0_conns = MAXCONCUR" by (rule fd0_conns_facts)
  have pos: "0 < MAXCONCUR" by (simp add: MAXCONCUR_def)
  have act: "fd (fd0_conns ! 0) = 0" "state (fd0_conns ! 0) = kk_connected"
    by (simp_all add: fd0_conns_facts fd0_conn_def)
  have p: "kexkill_passes [ready_env, ready_env, ready_env] fd0_conns 0 = Some (fd0_conns, 0)"
    by (simp add: ready_pass_changes_nothing)
  have "kexkill_loop [ready_env, ready_env, ready_env] fd0_conns 0 \<noteq> Some (Returned r c)"
    for r c
    using fd_zero_slot_is_skipped [OF l pos,
        where envs = "[ready_env, ready_env, ready_env]" and k = 0 and r = r and c = c] act
    by simp
  with l act p show ?thesis by simp
qed

end
